theory Spec2Isabelle
  imports Complex_Main "HOL-Library.AList"
begin

section \<open>Configuration values\<close>

text \<open>
  The configuration of \<^verbatim>\<open>lib/fast_rcnn/config.py\<close> is a nested \<^verbatim>\<open>edict\<close> (an
  \<^verbatim>\<open>EasyDict\<close>, a dictionary with string keys whose entries can also be read as
  attributes) holding scalars, tuples and further edicts. A value is one of the Python 2
  objects a configuration holds; an edict is kept as an association list, whose order is the
  order in which \<^verbatim>\<open>iteritems\<close> visits the entries. Values are trees: no two entries
  of a configuration share one mutable object, as is the case for the module's own defaults
  and for an edict built from a loaded YAML document. Python 2 tells \<^verbatim>\<open>int\<close> (a machine
  integer) from \<^verbatim>\<open>long\<close> and \<^verbatim>\<open>str\<close> from \<^verbatim>\<open>unicode\<close>, and a YAML
  document can hold each of them, so each has its own constructor and its own type:
  \<open>VInt\<close> stands for an integer that fits a machine word and \<open>VLong\<close> for a
  \<^verbatim>\<open>long\<close> of any size. Python's \<^verbatim>\<open>float\<close> is kept as a real number (rounding,
  infinities and NaN are not represented).
\<close>

datatype pyval =
    VNone
  | VBool bool
  | VInt int
  | VLong int
  | VFloat real
  | VStr string
  | VUnicode string
  | VTuple "pyval list"
  | VList "pyval list"
  | VNdarray "pyval list"
  | VEdict "(string \<times> pyval) list"

datatype pytype =
  TNone | TBool | TInt | TLong | TFloat | TStr | TUnicode | TTuple | TList | TNdarray | TEdict

text \<open>\<^verbatim>\<open>type(v)\<close>\<close>

fun type_of :: "pyval \<Rightarrow> pytype" where
  "type_of VNone = TNone"
| "type_of (VBool _) = TBool"
| "type_of (VInt _) = TInt"
| "type_of (VLong _) = TLong"
| "type_of (VFloat _) = TFloat"
| "type_of (VStr _) = TStr"
| "type_of (VUnicode _) = TUnicode"
| "type_of (VTuple _) = TTuple"
| "type_of (VList _) = TList"
| "type_of (VNdarray _) = TNdarray"
| "type_of (VEdict _) = TEdict"

section \<open>Exceptions and printed lines\<close>

datatype error =
    KeyError string
  | ValueError_type_mismatch pytype pytype string
  | AttributeError
  | IndexError
  | TypeError
  | ZeroDivisionError
  | ValueError_math_domain
  | Outside_model

text \<open>
  \<open>Outside_model\<close> is no Python exception: it marks an operation whose Python behaviour is
  not represented here (arithmetic on a numpy array, a loop bound that is no \<^verbatim>\<open>int\<close>),
  so that no result is invented for it.
\<close>

datatype stdout_line = Error_under_config_key string | Scales_line "pyval list"

text \<open>
  What a call that mutates its argument in place leaves behind: the exception it raised, if
  any, the object as it stands afterwards (also when the call raised half way), and the lines
  it printed.
\<close>

record outcome =
  raised :: "error option"
  after :: pyval
  printed :: "stdout_line list"

section \<open>The strict recursive merge\<close>

text \<open>
  \<^verbatim>\<open>_merge_a_into_b(a, b)\<close>, with the \<^verbatim>\<open>for k, v in a.iteritems()\<close> loop as
  \<open>merge_items\<close>. \<^verbatim>\<open>b.has_key(k)\<close> on a value that is no dictionary raises
  \<^verbatim>\<open>AttributeError\<close>. The nested call mutates the edict \<^verbatim>\<open>b[k]\<close> in place, so
  \<^verbatim>\<open>b\<close> holds the merged entry afterwards, and holds the partly merged entry when the
  nested call raised; the \<^verbatim>\<open>except\<close> clause prints and raises again.
\<close>

function merge_a_into_b :: "pyval \<Rightarrow> pyval \<Rightarrow> outcome"
  and merge_items :: "(string \<times> pyval) list \<Rightarrow> pyval \<Rightarrow> outcome" where
  "merge_a_into_b a b =
     (case a of
        VEdict items \<Rightarrow> merge_items items b
      | _ \<Rightarrow> \<lparr>raised = None, after = b, printed = []\<rparr>)"
| "merge_items [] b = \<lparr>raised = None, after = b, printed = []\<rparr>"
| "merge_items ((k, v) # rest) b =
     (case b of
        VEdict bs \<Rightarrow>
          (case map_of bs k of
             None \<Rightarrow> \<lparr>raised = Some (KeyError k), after = b, printed = []\<rparr>
           | Some bk \<Rightarrow>
               if type_of bk \<noteq> type_of v
               then \<lparr>raised = Some (ValueError_type_mismatch (type_of bk) (type_of v) k),
                      after = b, printed = []\<rparr>
               else if type_of v = TEdict
               then (let r = merge_a_into_b v bk;
                         b' = VEdict (AList.update k (after r) bs)
                     in (case raised r of
                           Some e \<Rightarrow> \<lparr>raised = Some e, after = b',
                                        printed = printed r @ [Error_under_config_key k]\<rparr>
                         | None \<Rightarrow>
                             (let r2 = merge_items rest b'
                              in r2\<lparr>printed := printed r @ printed r2\<rparr>)))
               else merge_items rest (VEdict (AList.update k v bs)))
      | _ \<Rightarrow> \<lparr>raised = Some AttributeError, after = b, printed = []\<rparr>)"
  by pat_completeness auto
termination
  by (relation "measure (\<lambda>x. case x of
            Inl (a, b) \<Rightarrow> 2 * size a
          | Inr (items, b) \<Rightarrow> 2 * size_list (size_prod (\<lambda>_. 0) size) items + 1)")
     auto

subsection \<open>What the merge keeps: keys and types\<close>

text \<open>
  The skeleton of a value: its type, and for an edict its keys with the skeletons of their
  entries.
\<close>

datatype shape = Leaf pytype | Node "(string \<times> shape) list"

fun shape_of :: "pyval \<Rightarrow> shape" where
  "shape_of (VEdict xs) = Node (map (\<lambda>(k, v). (k, shape_of v)) xs)"
| "shape_of v = Leaf (type_of v)"

lemma type_of_edict: "type_of v = TEdict \<longleftrightarrow> (\<exists>xs. v = VEdict xs)"
  by (cases v) auto

lemma shape_of_leaf: "type_of v \<noteq> TEdict \<Longrightarrow> shape_of v = Leaf (type_of v)"
  by (cases v) auto

lemma shape_of_type: "shape_of v = shape_of w \<Longrightarrow> type_of v = type_of w"
  by (cases v; cases w) auto

lemma shape_node_edict: "shape_of x = Node ys \<Longrightarrow> \<exists>xs. x = VEdict xs"
  by (cases x) auto

lemma shape_update:
  "map_of bs k = Some bk \<Longrightarrow> shape_of x = shape_of bk \<Longrightarrow>
   map (\<lambda>(k, v). (k, shape_of v)) (AList.update k x bs) = map (\<lambda>(k, v). (k, shape_of v)) bs"
  by (induction bs) (auto split: if_splits)

text \<open>One step of the loop over an edict, case by case.\<close>

lemma merge_items_cons_fail:
  "map_of bs k = None \<Longrightarrow>
     merge_items ((k, v) # rest) (VEdict bs) =
     \<lparr>raised = Some (KeyError k), after = VEdict bs, printed = []\<rparr>"
  "map_of bs k = Some bk \<Longrightarrow> type_of bk \<noteq> type_of v \<Longrightarrow>
     merge_items ((k, v) # rest) (VEdict bs) =
     \<lparr>raised = Some (ValueError_type_mismatch (type_of bk) (type_of v) k),
        after = VEdict bs, printed = []\<rparr>"
  by simp_all

lemma merge_items_cons_after:
  assumes "map_of bs k = Some bk" "type_of bk = type_of v"
  shows "type_of v \<noteq> TEdict \<Longrightarrow>
           merge_items ((k, v) # rest) (VEdict bs) = merge_items rest (VEdict (AList.update k v bs))"
    and "type_of v = TEdict \<Longrightarrow> raised (merge_a_into_b v bk) = None \<Longrightarrow>
           after (merge_items ((k, v) # rest) (VEdict bs)) =
           after (merge_items rest (VEdict (AList.update k (after (merge_a_into_b v bk)) bs)))"
    and "type_of v = TEdict \<Longrightarrow> raised (merge_a_into_b v bk) = None \<Longrightarrow>
           raised (merge_items ((k, v) # rest) (VEdict bs)) =
           raised (merge_items rest (VEdict (AList.update k (after (merge_a_into_b v bk)) bs)))"
    and "type_of v = TEdict \<Longrightarrow> raised (merge_a_into_b v bk) = Some e \<Longrightarrow>
           after (merge_items ((k, v) # rest) (VEdict bs)) =
           VEdict (AList.update k (after (merge_a_into_b v bk)) bs)"
    and "type_of v = TEdict \<Longrightarrow> raised (merge_a_into_b v bk) = Some e \<Longrightarrow>
           raised (merge_items ((k, v) # rest) (VEdict bs)) = Some e"
  using assms by (simp_all add: Let_def del: merge_a_into_b.simps)

text \<open>
  Whether it returns or raises, the merge leaves the skeleton of \<^verbatim>\<open>b\<close> as it was: it
  replaces an entry only by one of the same type.
\<close>

lemma shape_merge:
  "shape_of (after (merge_a_into_b a b)) = shape_of b"
  "shape_of (after (merge_items items b)) = shape_of b"
proof (induction a b and items b rule: merge_a_into_b_merge_items.induct)
  case (1 a b)
  then show ?case by (cases a) auto
next
  case (2 b)
  then show ?case by simp
next
  case (3 k v rest b)
  show ?case
  proof (cases b)
    case (VEdict bs)
    show ?thesis
    proof (cases "map_of bs k")
      case None
      with VEdict show ?thesis by simp
    next
      case (Some bk)
      show ?thesis
      proof (cases "type_of bk = type_of v")
        case False
        with VEdict Some show ?thesis by simp
      next
        case same: True
        note c = merge_items_cons_after[OF Some same, where rest = rest]
        show ?thesis
        proof (cases "type_of v = TEdict")
          case True
          let ?r = "merge_a_into_b v bk"
          let ?b' = "VEdict (AList.update k (after ?r) bs)"
          have s1: "shape_of (after ?r) = shape_of bk"
            using "3.IH"(1)[OF VEdict Some _ True] same by simp
          have s2: "shape_of ?b' = shape_of b"
            using shape_update[OF Some s1] VEdict by simp
          show ?thesis
          proof (cases "raised ?r")
            case None
            have "shape_of (after (merge_items rest ?b')) = shape_of ?b'"
              using "3.IH"(2)[OF VEdict Some _ True refl refl None] same by simp
            then show ?thesis
              unfolding VEdict c(2)[OF True None] using s2 VEdict by simp
          next
            case (Some e)
            show ?thesis
              unfolding VEdict c(4)[OF True Some] using s2 VEdict by simp
          qed
        next
          case False
          have s1: "shape_of v = shape_of bk"
            using False same by (simp add: shape_of_leaf)
          have "shape_of (after (merge_items rest (VEdict (AList.update k v bs)))) =
                shape_of (VEdict (AList.update k v bs))"
            using "3.IH"(3)[OF VEdict Some _ False] same by simp
          then show ?thesis
            unfolding VEdict c(1)[OF False] using shape_update[OF Some s1] by simp
        qed
      qed
    qed
  qed simp_all
qed

lemma after_is_edict: "\<exists>bs'. after (merge_items items (VEdict bs)) = VEdict bs'"
proof -
  have "shape_of (after (merge_items items (VEdict bs))) =
        Node (map (\<lambda>(k, v). (k, shape_of v)) bs)"
    using shape_merge(2)[of items "VEdict bs"] by simp
  then show ?thesis by (rule shape_node_edict)
qed

lemma keys_of_shape:
  assumes h: "map (\<lambda>(k, v). (k, shape_of v)) xs = map (\<lambda>(k, v). (k, shape_of v)) ys"
  shows "map fst xs = map fst ys"
proof -
  have e: "map fst (map (\<lambda>(k, v). (k, shape_of v)) zs) = map fst zs" for zs
    by (induction zs) auto
  have "map fst xs = map fst (map (\<lambda>(k, v). (k, shape_of v)) xs)" by (simp only: e)
  also have "\<dots> = map fst (map (\<lambda>(k, v). (k, shape_of v)) ys)" by (simp only: h)
  also have "\<dots> = map fst ys" by (simp only: e)
  finally show ?thesis .
qed

lemma merge_items_keys:
  assumes a: "after (merge_items items (VEdict bs)) = VEdict bs'"
  shows "map fst bs' = map fst bs"
proof -
  have "shape_of (VEdict bs') = shape_of (VEdict bs)"
    using shape_merge(2)[of items "VEdict bs"] a by simp
  then show ?thesis by (intro keys_of_shape) simp
qed

lemma map_of_update_other: "k' \<noteq> k \<Longrightarrow> map_of (AList.update k x bs) k' = map_of bs k'"
  by (simp add: update_conv')

text \<open>An entry of \<^verbatim>\<open>b\<close> under a key that \<^verbatim>\<open>a\<close> does not have is never written.\<close>

lemma merge_items_frame:
  "k' \<notin> fst ` set items \<Longrightarrow> after (merge_items items (VEdict bs)) = VEdict bs' \<Longrightarrow>
   map_of bs' k' = map_of bs k'"
proof (induction items arbitrary: bs)
  case Nil
  then show ?case by simp
next
  case (Cons kv rest)
  obtain k v where kv: "kv = (k, v)" by (cases kv)
  from Cons.prems kv have ne: "k' \<noteq> k" and nin: "k' \<notin> fst ` set rest" by auto
  have step: "map_of bs' k' = map_of bs k'"
    if "after (merge_items rest (VEdict (AList.update k x bs))) = VEdict bs'" for x
    using Cons.IH[OF nin that] ne by (simp add: map_of_update_other)
  note pr = Cons.prems(2)[unfolded kv]
  show ?case
  proof (cases "map_of bs k")
    case None
    from pr show ?thesis unfolding merge_items_cons_fail(1)[OF None] by simp
  next
    case (Some bk)
    show ?thesis
    proof (cases "type_of bk = type_of v")
      case False
      from pr show ?thesis unfolding merge_items_cons_fail(2)[OF Some False] by simp
    next
      case same: True
      note c = merge_items_cons_after[OF Some same]
      show ?thesis
      proof (cases "type_of v = TEdict")
        case False
        from pr show ?thesis unfolding c(1)[OF False] by (rule step)
      next
        case True
        show ?thesis
        proof (cases "raised (merge_a_into_b v bk)")
          case None
          from pr show ?thesis unfolding c(2)[OF True None] by (rule step)
        next
          case (Some e)
          from pr have "bs' = AList.update k (after (merge_a_into_b v bk)) bs"
            unfolding c(4)[OF True Some] by simp
          then show ?thesis using ne by (simp add: map_of_update_other)
        qed
      qed
    qed
  qed
qed

subsection \<open>Which overrides the merge refuses\<close>

text \<open>
  \<open>missing_key as bs\<close>: the override \<open>as\<close> has a key that the configuration \<open>bs\<close> does
  not have, at the top level or inside an entry that is an edict on both sides (the entries
  the merge descends into). \<open>type_mismatch as bs\<close>: some key of both, at the top level or in
  such a nested entry, holds values of different types.
\<close>

function missing_key :: "(string \<times> pyval) list \<Rightarrow> (string \<times> pyval) list \<Rightarrow> bool" where
  "missing_key [] bs = False"
| "missing_key ((k, v) # rest) bs =
     ((case map_of bs k of
         None \<Rightarrow> True
       | Some bk \<Rightarrow>
           (case v of
              VEdict av \<Rightarrow> (case bk of VEdict bv \<Rightarrow> missing_key av bv | _ \<Rightarrow> False)
            | _ \<Rightarrow> False))
      \<or> missing_key rest bs)"
  by pat_completeness auto
termination
  by (relation "measure (\<lambda>(a, b). size_list (size_prod (\<lambda>_. 0) size) a)") auto

function type_mismatch :: "(string \<times> pyval) list \<Rightarrow> (string \<times> pyval) list \<Rightarrow> bool" where
  "type_mismatch [] bs = False"
| "type_mismatch ((k, v) # rest) bs =
     ((case map_of bs k of
         None \<Rightarrow> False
       | Some bk \<Rightarrow>
           type_of bk \<noteq> type_of v \<or>
           (case v of
              VEdict av \<Rightarrow> (case bk of VEdict bv \<Rightarrow> type_mismatch av bv | _ \<Rightarrow> False)
            | _ \<Rightarrow> False))
      \<or> type_mismatch rest bs)"
  by pat_completeness auto
termination
  by (relation "measure (\<lambda>(a, b). size_list (size_prod (\<lambda>_. 0) size) a)") auto

text \<open>The exception classes a handler would tell apart.\<close>

fun is_KeyError :: "error \<Rightarrow> bool" where
  "is_KeyError (KeyError _) = True"
| "is_KeyError _ = False"

fun is_ValueError :: "error \<Rightarrow> bool" where
  "is_ValueError (ValueError_type_mismatch _ _ _) = True"
| "is_ValueError ValueError_math_domain = True"
| "is_ValueError _ = False"

text \<open>
  What the merge raises, read against the two predicates: it returns only when no key is
  missing and no type differs, a \<^verbatim>\<open>KeyError\<close> comes with a missing key and a
  \<^verbatim>\<open>ValueError\<close> with a type mismatch.
\<close>

definition explains :: "error option \<Rightarrow> (string \<times> pyval) list \<Rightarrow> (string \<times> pyval) list \<Rightarrow> bool" where
  "explains r as bs =
     ((r = None \<longrightarrow> \<not> missing_key as bs \<and> \<not> type_mismatch as bs) \<and>
      (\<forall>e. r = Some e \<longrightarrow>
         (is_KeyError e \<and> missing_key as bs) \<or> (is_ValueError e \<and> type_mismatch as bs)))"

text \<open>Both predicates depend on the configuration only through its skeleton.\<close>

lemma shape_lookup:
  "map (\<lambda>(k, v). (k, shape_of v)) bs = map (\<lambda>(k, v). (k, shape_of v)) bs' \<Longrightarrow>
   rel_option (\<lambda>x y. shape_of x = shape_of y) (map_of bs k) (map_of bs' k)"
proof (induction bs arbitrary: bs')
  case Nil
  then show ?case by simp
next
  case (Cons p bs)
  obtain pk pv where p: "p = (pk, pv)" by (cases p)
  from Cons.prems obtain q cs where bs': "bs' = q # cs" by (cases bs') auto
  obtain qk qv where q: "q = (qk, qv)" by (cases q)
  from Cons.prems bs' p q have hd: "pk = qk" "shape_of pv = shape_of qv"
    and tl: "map (\<lambda>(k, v). (k, shape_of v)) bs = map (\<lambda>(k, v). (k, shape_of v)) cs"
    by simp_all
  from Cons.IH[OF tl] hd show ?case by (simp add: bs' p q)
qed

lemma shape_edict_cases:
  assumes "shape_of x = shape_of y"
  shows "(\<exists>xs ys. x = VEdict xs \<and> y = VEdict ys \<and>
            map (\<lambda>(k, v). (k, shape_of v)) xs = map (\<lambda>(k, v). (k, shape_of v)) ys)
         \<or> (type_of x \<noteq> TEdict \<and> type_of y \<noteq> TEdict \<and> type_of x = type_of y)"
  using assms by (cases x; cases y) auto

lemma case_non_edict:
  "type_of b \<noteq> TEdict \<Longrightarrow> (case b of VEdict bv \<Rightarrow> P bv | _ \<Rightarrow> False) = False"
  by (cases b) auto

lemma missing_key_shape:
  "map (\<lambda>(k, v). (k, shape_of v)) bs = map (\<lambda>(k, v). (k, shape_of v)) bs' \<Longrightarrow>
   missing_key as bs = missing_key as bs'"
proof (induction as bs arbitrary: bs' rule: missing_key.induct)
  case (1 bs)
  then show ?case by simp
next
  case (2 k v rest bs)
  have rest: "missing_key rest bs = missing_key rest bs'"
    using "2.IH"(2)[OF "2.prems"] .
  have rel: "rel_option (\<lambda>x y. shape_of x = shape_of y) (map_of bs k) (map_of bs' k)"
    using "2.prems" by (rule shape_lookup)
  show ?case
  proof (cases "map_of bs k")
    case None
    with rel have "map_of bs' k = None" by (cases "map_of bs' k") auto
    with None show ?thesis by simp
  next
    case (Some bk)
    with rel obtain bk' where bk': "map_of bs' k = Some bk'" and sh: "shape_of bk = shape_of bk'"
      by (cases "map_of bs' k") auto
    from shape_edict_cases[OF sh] show ?thesis
    proof
      assume "\<exists>xs ys. bk = VEdict xs \<and> bk' = VEdict ys \<and>
            map (\<lambda>(k, v). (k, shape_of v)) xs = map (\<lambda>(k, v). (k, shape_of v)) ys"
      then obtain bv bv' where bkE: "bk = VEdict bv" and bk'E: "bk' = VEdict bv'"
        and m: "map (\<lambda>(k, v). (k, shape_of v)) bv = map (\<lambda>(k, v). (k, shape_of v)) bv'"
        by blast
      show ?thesis
      proof (cases v)
        case (VEdict av)
        from "2.IH"(1)[OF Some VEdict bkE m]
        show ?thesis using Some bk' VEdict bkE bk'E rest by simp
      qed (use Some bk' rest in simp_all)
    next
      assume ne: "type_of bk \<noteq> TEdict \<and> type_of bk' \<noteq> TEdict \<and> type_of bk = type_of bk'"
      then have "(case bk of VEdict bv \<Rightarrow> P bv | _ \<Rightarrow> False) = False"
                "(case bk' of VEdict bv \<Rightarrow> P bv | _ \<Rightarrow> False) = False" for P
        by (simp_all add: case_non_edict)
      then show ?thesis using Some bk' rest by (cases v) simp_all
    qed
  qed
qed

lemma type_mismatch_shape:
  "map (\<lambda>(k, v). (k, shape_of v)) bs = map (\<lambda>(k, v). (k, shape_of v)) bs' \<Longrightarrow>
   type_mismatch as bs = type_mismatch as bs'"
proof (induction as bs arbitrary: bs' rule: type_mismatch.induct)
  case (1 bs)
  then show ?case by simp
next
  case (2 k v rest bs)
  have rest: "type_mismatch rest bs = type_mismatch rest bs'"
    using "2.IH"(2)[OF "2.prems"] .
  have rel: "rel_option (\<lambda>x y. shape_of x = shape_of y) (map_of bs k) (map_of bs' k)"
    using "2.prems" by (rule shape_lookup)
  show ?case
  proof (cases "map_of bs k")
    case None
    with rel have "map_of bs' k = None" by (cases "map_of bs' k") auto
    with None rest show ?thesis by simp
  next
    case (Some bk)
    with rel obtain bk' where bk': "map_of bs' k = Some bk'" and sh: "shape_of bk = shape_of bk'"
      by (cases "map_of bs' k") auto
    have ty: "type_of bk = type_of bk'" using sh by (rule shape_of_type)
    from shape_edict_cases[OF sh] show ?thesis
    proof
      assume "\<exists>xs ys. bk = VEdict xs \<and> bk' = VEdict ys \<and>
            map (\<lambda>(k, v). (k, shape_of v)) xs = map (\<lambda>(k, v). (k, shape_of v)) ys"
      then obtain bv bv' where bkE: "bk = VEdict bv" and bk'E: "bk' = VEdict bv'"
        and m: "map (\<lambda>(k, v). (k, shape_of v)) bv = map (\<lambda>(k, v). (k, shape_of v)) bv'"
        by blast
      show ?thesis
      proof (cases v)
        case (VEdict av)
        from "2.IH"(1)[OF Some VEdict bkE m]
        show ?thesis using Some bk' VEdict bkE bk'E rest by simp
      qed (use Some bk' rest bkE bk'E in simp_all)
    next
      assume ne: "type_of bk \<noteq> TEdict \<and> type_of bk' \<noteq> TEdict \<and> type_of bk = type_of bk'"
      then have "(case bk of VEdict bv \<Rightarrow> P bv | _ \<Rightarrow> False) = False"
                "(case bk' of VEdict bv \<Rightarrow> P bv | _ \<Rightarrow> False) = False" for P
        by (simp_all add: case_non_edict)
      then show ?thesis using Some bk' rest ty by (cases v) simp_all
    qed
  qed
qed

lemma checks_after_update:
  assumes "map_of bs k = Some bk" "shape_of x = shape_of bk"
  shows "missing_key as (AList.update k x bs) = missing_key as bs"
    and "type_mismatch as (AList.update k x bs) = type_mismatch as bs"
  using shape_update[OF assms] by (rule missing_key_shape, rule type_mismatch_shape)

lemma explains_merge:
  "b = VEdict bs \<Longrightarrow> a = VEdict as \<Longrightarrow> explains (raised (merge_a_into_b a b)) as bs"
  "b = VEdict bs \<Longrightarrow> explains (raised (merge_items items b)) items bs"
proof (induction a b and items b arbitrary: bs as and bs rule: merge_a_into_b_merge_items.induct)
  case (1 a b)
  then show ?case by simp
next
  case (2 b)
  then show ?case by (simp add: explains_def)
next
  case (3 k v rest b)
  note b = \<open>b = VEdict bs\<close>
  show ?case
  proof (cases "map_of bs k")
    case None
    show ?thesis unfolding b merge_items_cons_fail(1)[OF None]
      using None by (simp add: explains_def)
  next
    case (Some bk)
    show ?thesis
    proof (cases "type_of bk = type_of v")
      case False
      show ?thesis unfolding b merge_items_cons_fail(2)[OF Some False]
        using Some False by (simp add: explains_def)
    next
      case same: True
      note c = merge_items_cons_after[OF Some same, where rest = rest]
      show ?thesis
      proof (cases "type_of v = TEdict")
        case False
        have sh: "shape_of v = shape_of bk" using False same by (simp add: shape_of_leaf)
        have ih: "explains (raised (merge_items rest (VEdict (AList.update k v bs)))) rest
                    (AList.update k v bs)"
          using "3.IH"(3)[OF b Some _ False refl] same by simp
        have hd: "(case v of VEdict av \<Rightarrow> P av | _ \<Rightarrow> False) = False" for P
          using False by (rule case_non_edict)
        show ?thesis unfolding b c(1)[OF False]
          using ih Some same hd checks_after_update[OF Some sh]
          by (simp add: explains_def)
      next
        case True
        then obtain av where v: "v = VEdict av" by (auto simp: type_of_edict)
        from True same obtain bv where bk: "bk = VEdict bv" by (auto simp: type_of_edict)
        let ?r = "merge_a_into_b v bk"
        have ih1: "explains (raised ?r) av bv"
          using "3.IH"(1)[OF b Some _ True bk v] same by simp
        have sh: "shape_of (after ?r) = shape_of bk" by (rule shape_merge(1))
        show ?thesis
        proof (cases "raised ?r")
          case None
          have ih2: "explains (raised (merge_items rest (VEdict (AList.update k (after ?r) bs))))
                       rest (AList.update k (after ?r) bs)"
            using "3.IH"(2)[OF b Some _ True refl refl None refl] same by simp
          from ih1 None have ok: "\<not> missing_key av bv" "\<not> type_mismatch av bv"
            by (simp_all add: explains_def)
          show ?thesis unfolding b c(3)[OF True None]
            using ih2 Some same ok checks_after_update[OF Some sh] v bk
            by (simp add: explains_def)
        next
          case (Some e)
          from ih1 Some have "(is_KeyError e \<and> missing_key av bv) \<or>
                              (is_ValueError e \<and> type_mismatch av bv)"
            by (simp add: explains_def)
          then show ?thesis unfolding b c(5)[OF True Some]
            using \<open>map_of bs k = Some bk\<close> v bk by (auto simp add: explains_def)
        qed
      qed
    qed
  qed
qed

text \<open>
  What \<^verbatim>\<open>b[k]\<close> holds once the loop has handled the entry \<^verbatim>\<open>(k, v)\<close> of the
  override: the override's value, or the old edict with the nested override merged in.
\<close>

definition merged_entry :: "pyval \<Rightarrow> pyval \<Rightarrow> pyval" where
  "merged_entry v bk = (if type_of v = TEdict then after (merge_a_into_b v bk) else v)"

lemma merge_items_cons_ok:
  assumes ok: "raised (merge_items ((k, v) # rest) (VEdict bs)) = None"
  shows "\<exists>bk. map_of bs k = Some bk \<and> type_of bk = type_of v \<and>
           (type_of v = TEdict \<longrightarrow> raised (merge_a_into_b v bk) = None) \<and>
           raised (merge_items rest (VEdict (AList.update k (merged_entry v bk) bs))) = None \<and>
           after (merge_items ((k, v) # rest) (VEdict bs)) =
           after (merge_items rest (VEdict (AList.update k (merged_entry v bk) bs)))"
proof (cases "map_of bs k")
  case None
  from ok show ?thesis unfolding merge_items_cons_fail(1)[OF None] by simp
next
  case (Some bk)
  show ?thesis
  proof (cases "type_of bk = type_of v")
    case False
    from ok show ?thesis unfolding merge_items_cons_fail(2)[OF Some False] by simp
  next
    case same: True
    note c = merge_items_cons_after[OF Some same, where rest = rest]
    show ?thesis
    proof (cases "type_of v = TEdict")
      case False
      then have m: "merged_entry v bk = v" by (simp add: merged_entry_def)
      from ok have "raised (merge_items rest (VEdict (AList.update k v bs))) = None"
        unfolding c(1)[OF False] .
      then show ?thesis using Some same False m c(1)[OF False] by simp
    next
      case True
      then have m: "merged_entry v bk = after (merge_a_into_b v bk)"
        by (simp add: merged_entry_def)
      show ?thesis
      proof (cases "raised (merge_a_into_b v bk)")
        case None
        from ok have "raised (merge_items rest
            (VEdict (AList.update k (after (merge_a_into_b v bk)) bs))) = None"
          unfolding c(3)[OF True None] .
        then show ?thesis using Some same None m c(2)[OF True None] by simp
      next
        case (Some e)
        from ok show ?thesis unfolding c(5)[OF True Some] by simp
      qed
    qed
  qed
qed

lemma map_of_update_same: "map_of (AList.update k x bs) k = Some x"
  by (simp add: update_conv')

lemma merge_items_result:
  assumes "raised (merge_items items (VEdict bs)) = None"
    and "distinct (map fst items)"
    and "(k, v) \<in> set items"
    and "after (merge_items items (VEdict bs)) = VEdict bs'"
  shows "\<exists>bk. map_of bs k = Some bk \<and> type_of bk = type_of v \<and>
             (type_of v = TEdict \<longrightarrow> raised (merge_a_into_b v bk) = None) \<and>
             map_of bs' k = Some (merged_entry v bk)"
  using assms
proof (induction items arbitrary: bs)
  case Nil
  then show ?case by simp
next
  case (Cons kv rest)
  obtain k0 v0 where kv: "kv = (k0, v0)" by (cases kv)
  from merge_items_cons_ok[OF Cons.prems(1)[unfolded kv]]
  obtain bk0 where bk0: "map_of bs k0 = Some bk0" "type_of bk0 = type_of v0"
      "type_of v0 = TEdict \<longrightarrow> raised (merge_a_into_b v0 bk0) = None"
    and ok: "raised (merge_items rest (VEdict (AList.update k0 (merged_entry v0 bk0) bs))) = None"
    and af: "after (merge_items ((k0, v0) # rest) (VEdict bs)) =
             after (merge_items rest (VEdict (AList.update k0 (merged_entry v0 bk0) bs)))"
    by blast
  let ?b1 = "AList.update k0 (merged_entry v0 bk0) bs"
  have af': "after (merge_items rest (VEdict ?b1)) = VEdict bs'"
    using Cons.prems(4) kv af by simp
  from Cons.prems(2) kv have d: "k0 \<notin> fst ` set rest" "distinct (map fst rest)" by auto
  show ?case
  proof (cases "(k, v) = (k0, v0)")
    case True
    have "map_of bs' k0 = map_of ?b1 k0" using d(1) af' by (rule merge_items_frame)
    then have "map_of bs' k0 = Some (merged_entry v0 bk0)" by (simp add: map_of_update_same)
    with bk0 True show ?thesis by auto
  next
    case False
    with Cons.prems(3) kv have mem: "(k, v) \<in> set rest" by auto
    then have "k \<in> fst ` set rest" by force
    with d(1) have ne: "k \<noteq> k0" by auto
    from Cons.IH[OF ok d(2) mem af']
    obtain bk where "map_of ?b1 k = Some bk" "type_of bk = type_of v"
       "type_of v = TEdict \<longrightarrow> raised (merge_a_into_b v bk) = None"
       "map_of bs' k = Some (merged_entry v bk)" by blast
    then show ?thesis using ne by (auto simp: map_of_update_other)
  qed
qed

subsection \<open>The order of the checks\<close>

text \<open>
  The checks of the loop, in the order in which it makes them when none of them stops it:
  for each key of the override in iteration order, \<^verbatim>\<open>b.has_key(k)\<close> and then the
  comparison of the two types, followed at once by the checks of the nested call when the
  entry is an edict. A key that fails one of its checks is not descended into. The list is
  read off the override and the configuration as they are before the call.
\<close>

datatype verdict = Passes | Key_missing | Types_differ pytype pytype

function checks :: "(string \<times> pyval) list \<Rightarrow> (string \<times> pyval) list \<Rightarrow> (string \<times> verdict) list" where
  "checks [] bs = []"
| "checks ((k, v) # rest) bs =
     (case map_of bs k of
        None \<Rightarrow> [(k, Key_missing)]
      | Some bk \<Rightarrow>
          if type_of bk \<noteq> type_of v then [(k, Types_differ (type_of bk) (type_of v))]
          else (k, Passes) #
               (case v of
                  VEdict av \<Rightarrow> (case bk of VEdict bv \<Rightarrow> checks av bv | _ \<Rightarrow> [])
                | _ \<Rightarrow> []))
     @ checks rest bs"
  by pat_completeness auto
termination
  by (relation "measure (\<lambda>(a, b). size_list (size_prod (\<lambda>_. 0) size) a)") auto

text \<open>The exception of the first check that does not pass.\<close>

fun first_error :: "(string \<times> verdict) list \<Rightarrow> error option" where
  "first_error [] = None"
| "first_error ((k, Passes) # cs) = first_error cs"
| "first_error ((k, Key_missing) # cs) = Some (KeyError k)"
| "first_error ((k, Types_differ tb ta) # cs) = Some (ValueError_type_mismatch tb ta k)"

lemma first_error_append:
  "first_error (xs @ ys) = (case first_error xs of None \<Rightarrow> first_error ys | Some e \<Rightarrow> Some e)"
  by (induction xs rule: first_error.induct) simp_all

lemma case_non_edict_nil:
  "type_of b \<noteq> TEdict \<Longrightarrow> (case b of VEdict bv \<Rightarrow> P bv | _ \<Rightarrow> []) = []"
  by (cases b) auto

text \<open>
  The writes \<^verbatim>\<open>b[k] = v\<close> made on the way never change a later check: they keep the
  skeleton of \<^verbatim>\<open>b\<close>, and the checks depend on nothing else.
\<close>

lemma checks_shape:
  "map (\<lambda>(k, v). (k, shape_of v)) bs = map (\<lambda>(k, v). (k, shape_of v)) bs' \<Longrightarrow>
   checks as bs = checks as bs'"
proof (induction as bs arbitrary: bs' rule: checks.induct)
  case (1 bs)
  then show ?case by simp
next
  case (2 k v rest bs)
  have rest: "checks rest bs = checks rest bs'"
    using "2.IH"(2)[OF "2.prems"] .
  have rel: "rel_option (\<lambda>x y. shape_of x = shape_of y) (map_of bs k) (map_of bs' k)"
    using "2.prems" by (rule shape_lookup)
  show ?case
  proof (cases "map_of bs k")
    case None
    with rel have "map_of bs' k = None" by (cases "map_of bs' k") auto
    with None rest show ?thesis by simp
  next
    case (Some bk)
    with rel obtain bk' where bk': "map_of bs' k = Some bk'" and sh: "shape_of bk = shape_of bk'"
      by (cases "map_of bs' k") auto
    have ty: "type_of bk = type_of bk'" using sh by (rule shape_of_type)
    show ?thesis
    proof (cases "type_of bk = type_of v")
      case False
      then show ?thesis using Some bk' ty rest by simp
    next
      case same: True
      from shape_edict_cases[OF sh] show ?thesis
      proof
        assume "\<exists>xs ys. bk = VEdict xs \<and> bk' = VEdict ys \<and>
              map (\<lambda>(k, v). (k, shape_of v)) xs = map (\<lambda>(k, v). (k, shape_of v)) ys"
        then obtain bv bv' where bkE: "bk = VEdict bv" and bk'E: "bk' = VEdict bv'"
          and m: "map (\<lambda>(k, v). (k, shape_of v)) bv = map (\<lambda>(k, v). (k, shape_of v)) bv'"
          by blast
        from same bkE have "type_of v = TEdict" by simp
        then obtain av where v: "v = VEdict av" by (auto simp: type_of_edict)
        have "checks av bv = checks av bv'"
          using "2.IH"(1)[OF Some _ v bkE m] same by simp
        then show ?thesis using Some bk' v bkE bk'E rest by simp
      next
        assume ne: "type_of bk \<noteq> TEdict \<and> type_of bk' \<noteq> TEdict \<and> type_of bk = type_of bk'"
        with same have "type_of v \<noteq> TEdict" by simp
        then have "(case v of VEdict av \<Rightarrow> P av | _ \<Rightarrow> []) = []"
          for P :: "(string \<times> pyval) list \<Rightarrow> (string \<times> verdict) list"
          by (rule case_non_edict_nil)
        then show ?thesis using Some bk' rest ty same by simp
      qed
    qed
  qed
qed

lemma checks_after_write:
  assumes "map_of bs k = Some bk" "shape_of x = shape_of bk"
  shows "checks as (AList.update k x bs) = checks as bs"
  using shape_update[OF assms] by (rule checks_shape)

text \<open>The merge raises exactly what the first failing check raises, and returns when all pass.\<close>

lemma raised_first_error:
  "b = VEdict bs \<Longrightarrow> a = VEdict as \<Longrightarrow> raised (merge_a_into_b a b) = first_error (checks as bs)"
  "b = VEdict bs \<Longrightarrow> raised (merge_items items b) = first_error (checks items bs)"
proof (induction a b and items b arbitrary: bs as and bs rule: merge_a_into_b_merge_items.induct)
  case (1 a b)
  then show ?case by simp
next
  case (2 b)
  then show ?case by simp
next
  case (3 k v rest b)
  note b = \<open>b = VEdict bs\<close>
  show ?case
  proof (cases "map_of bs k")
    case None
    show ?thesis unfolding b merge_items_cons_fail(1)[OF None]
      using None by simp
  next
    case (Some bk)
    show ?thesis
    proof (cases "type_of bk = type_of v")
      case False
      show ?thesis unfolding b merge_items_cons_fail(2)[OF Some False]
        using Some False by simp
    next
      case same: True
      note c = merge_items_cons_after[OF Some same, where rest = rest]
      show ?thesis
      proof (cases "type_of v = TEdict")
        case False
        have sh: "shape_of v = shape_of bk" using False same by (simp add: shape_of_leaf)
        have ih: "raised (merge_items rest (VEdict (AList.update k v bs)))
                  = first_error (checks rest (AList.update k v bs))"
          using "3.IH"(3)[OF b Some _ False refl] same by simp
        have hd: "(case v of VEdict av \<Rightarrow> P av | _ \<Rightarrow> []) = []"
          for P :: "(string \<times> pyval) list \<Rightarrow> (string \<times> verdict) list"
          using False by (rule case_non_edict_nil)
        show ?thesis unfolding b c(1)[OF False]
          using ih Some same hd checks_after_write[OF Some sh]
          by simp
      next
        case True
        then obtain av where v: "v = VEdict av" by (auto simp: type_of_edict)
        from True same obtain bv where bk: "bk = VEdict bv" by (auto simp: type_of_edict)
        let ?r = "merge_a_into_b v bk"
        have ih1: "raised ?r = first_error (checks av bv)"
          using "3.IH"(1)[OF b Some _ True bk v] same by simp
        have sh: "shape_of (after ?r) = shape_of bk" by (rule shape_merge(1))
        show ?thesis
        proof (cases "raised ?r")
          case None
          have ih2: "raised (merge_items rest (VEdict (AList.update k (after ?r) bs)))
                     = first_error (checks rest (AList.update k (after ?r) bs))"
            using "3.IH"(2)[OF b Some _ True refl refl None refl] same by simp
          show ?thesis unfolding b c(3)[OF True None]
            using ih2 ih1 None Some same checks_after_write[OF Some sh] v bk
            by (simp add: first_error_append)
        next
          case (Some e)
          show ?thesis unfolding b c(5)[OF True Some]
            using ih1 Some \<open>map_of bs k = Some bk\<close> same v bk
            by (simp add: first_error_append)
        qed
      qed
    qed
  qed
qed

lemma first_error_after_passes:
  "\<forall>c\<in>set pre. snd c = Passes \<Longrightarrow> first_error (pre @ cs) = first_error cs"
  by (induction pre) auto


text \<open>
  The two predicates on overrides are what the list of checks shows: a key is missing when
  some \<^verbatim>\<open>has_key\<close> check fails, a type is mismatched when some comparison fails.
\<close>

lemma missing_key_checks:
  "missing_key as bs \<longleftrightarrow> (\<exists>k. (k, Key_missing) \<in> set (checks as bs))"
proof (induction as bs rule: checks.induct)
  case (1 bs)
  show ?case by simp
next
  case (2 k v rest bs)
  show ?case
  proof (cases "map_of bs k")
    case None
    then show ?thesis using "2.IH"(2) by auto
  next
    case (Some bk)
    show ?thesis
    proof (cases "type_of bk = type_of v")
      case False
      then have "\<not> (type_of v = TEdict \<and> type_of bk = TEdict)" by auto
      then have "(case v of VEdict av \<Rightarrow> (case bk of VEdict bv \<Rightarrow> missing_key av bv | _ \<Rightarrow> False)
                  | _ \<Rightarrow> False) = False"
        by (cases v; cases bk) simp_all
      then show ?thesis using Some False "2.IH"(2) by auto
    next
      case same: True
      show ?thesis
      proof (cases "type_of v = TEdict")
        case True
        then obtain av where v: "v = VEdict av" by (auto simp: type_of_edict)
        from True same obtain bv where bk: "bk = VEdict bv" by (auto simp: type_of_edict)
        have "missing_key av bv \<longleftrightarrow> (\<exists>k. (k, Key_missing) \<in> set (checks av bv))"
          using "2.IH"(1)[OF Some _ v bk] same by simp
        then show ?thesis using Some same v bk "2.IH"(2) by auto
      next
        case False
        then have "(case v of VEdict av \<Rightarrow> P av | _ \<Rightarrow> False) = False" for P
          by (rule case_non_edict)
        moreover have "(case v of VEdict av \<Rightarrow> Q av | _ \<Rightarrow> []) = []"
          for Q :: "(string \<times> pyval) list \<Rightarrow> (string \<times> verdict) list"
          using False by (rule case_non_edict_nil)
        ultimately show ?thesis using Some same "2.IH"(2) by auto
      qed
    qed
  qed
qed

lemma type_mismatch_checks:
  "type_mismatch as bs \<longleftrightarrow> (\<exists>k tb ta. (k, Types_differ tb ta) \<in> set (checks as bs))"
proof (induction as bs rule: checks.induct)
  case (1 bs)
  show ?case by simp
next
  case (2 k v rest bs)
  show ?case
  proof (cases "map_of bs k")
    case None
    then show ?thesis using "2.IH"(2) by auto
  next
    case (Some bk)
    show ?thesis
    proof (cases "type_of bk = type_of v")
      case False
      then show ?thesis using Some by auto
    next
      case same: True
      show ?thesis
      proof (cases "type_of v = TEdict")
        case True
        then obtain av where v: "v = VEdict av" by (auto simp: type_of_edict)
        from True same obtain bv where bk: "bk = VEdict bv" by (auto simp: type_of_edict)
        have "type_mismatch av bv \<longleftrightarrow> (\<exists>k tb ta. (k, Types_differ tb ta) \<in> set (checks av bv))"
          using "2.IH"(1)[OF Some _ v bk] same by simp
        then show ?thesis using Some same v bk "2.IH"(2) by auto
      next
        case False
        then have "(case v of VEdict av \<Rightarrow> P av | _ \<Rightarrow> False) = False" for P
          by (rule case_non_edict)
        moreover have "(case v of VEdict av \<Rightarrow> Q av | _ \<Rightarrow> []) = []"
          for Q :: "(string \<times> pyval) list \<Rightarrow> (string \<times> verdict) list"
          using False by (rule case_non_edict_nil)
        ultimately show ?thesis using Some same "2.IH"(2) by auto
      qed
    qed
  qed
qed

section \<open>Claims about the merge\<close>

text \<open>
  Claim C4. When \<^verbatim>\<open>_merge_a_into_b(a, b)\<close> on two edicts returns without raising,
  \<^verbatim>\<open>b\<close> is still an edict with exactly the keys it had (none added, none removed), and
  every key of \<^verbatim>\<open>b\<close> that is not a key of \<^verbatim>\<open>a\<close> still maps to its previous value.
\<close>

theorem merge_keeps_keys_and_other_entries:
  assumes "raised (merge_a_into_b (VEdict as) (VEdict bs)) = None"
    and "k \<notin> fst ` set as"
  shows "\<exists>bs'. after (merge_a_into_b (VEdict as) (VEdict bs)) = VEdict bs' \<and>
               map fst bs' = map fst bs \<and> map_of bs' k = map_of bs k"
proof -
  obtain bs' where a: "after (merge_items as (VEdict bs)) = VEdict bs'"
    using after_is_edict by blast
  have "map fst bs' = map fst bs" using a by (rule merge_items_keys)
  moreover have "map_of bs' k = map_of bs k" using assms(2) a by (rule merge_items_frame)
  ultimately show ?thesis using a by simp
qed

theorem merge_keeps_keys_and_other_entries_witness:
  "raised (merge_a_into_b (VEdict [(''EXP_DIR'', VStr ''kitti'')])
             (VEdict [(''RNG_SEED'', VInt 3), (''EXP_DIR'', VStr ''default'')])) = None \<and>
   ''RNG_SEED'' \<notin> fst ` set [(''EXP_DIR'', VStr ''kitti'')] \<and>
   (\<exists>bs'. after (merge_a_into_b (VEdict [(''EXP_DIR'', VStr ''kitti'')])
             (VEdict [(''RNG_SEED'', VInt 3), (''EXP_DIR'', VStr ''default'')])) = VEdict bs' \<and>
          map fst bs' = [''RNG_SEED'', ''EXP_DIR''] \<and> map_of bs' ''RNG_SEED'' = Some (VInt 3))"
proof -
  have h1: "raised (merge_a_into_b (VEdict [(''EXP_DIR'', VStr ''kitti'')])
             (VEdict [(''RNG_SEED'', VInt 3), (''EXP_DIR'', VStr ''default'')])) = None"
    by simp
  have h2: "''RNG_SEED'' \<notin> fst ` set [(''EXP_DIR'', VStr ''kitti'')]"
    by simp
  show ?thesis
    using h1 h2 merge_keeps_keys_and_other_entries[OF h1 h2] by simp
qed

text \<open>
  Claim C1, as amended. If the override has a key \<open>k\<close> the configuration lacks (at the top
  level or at a nesting level the merge reaches) and every check the loop makes before the
  \<^verbatim>\<open>has_key\<close> check of \<open>k\<close> passes, that is, no key with a type mismatch is visited
  before the first missing key, then \<^verbatim>\<open>_merge_a_into_b(a, b)\<close> raises
  \<^verbatim>\<open>KeyError\<close>, for the key \<open>k\<close>.
\<close>

theorem missing_key_raises:
  assumes "checks as bs = pre @ (k, Key_missing) # post"
    and "\<forall>c\<in>set pre. snd c = Passes"
  shows "raised (merge_a_into_b (VEdict as) (VEdict bs)) = Some (KeyError k)"
proof -
  have "raised (merge_a_into_b (VEdict as) (VEdict bs)) = first_error (checks as bs)"
    by (rule raised_first_error(1)[OF refl refl])
  also have "\<dots> = first_error ((k, Key_missing) # post)"
    unfolding assms(1) using assms(2) by (rule first_error_after_passes)
  finally show ?thesis by simp
qed

theorem missing_key_raises_witness:
  "checks [(''TRAIN'', VEdict [(''BATCH_SIZE'', VInt 64), (''BATCH'', VInt 1)]), (''SEED'', VStr ''x'')]
          [(''TRAIN'', VEdict [(''BATCH_SIZE'', VInt 128)]), (''SEED'', VInt 3)]
   = [(''TRAIN'', Passes), (''BATCH_SIZE'', Passes)] @ (''BATCH'', Key_missing)
     # [(''SEED'', Types_differ TInt TStr)] \<and>
   raised (merge_a_into_b
     (VEdict [(''TRAIN'', VEdict [(''BATCH_SIZE'', VInt 64), (''BATCH'', VInt 1)]), (''SEED'', VStr ''x'')])
     (VEdict [(''TRAIN'', VEdict [(''BATCH_SIZE'', VInt 128)]), (''SEED'', VInt 3)]))
   = Some (KeyError ''BATCH'')"
proof -
  have h1: "checks [(''TRAIN'', VEdict [(''BATCH_SIZE'', VInt 64), (''BATCH'', VInt 1)]), (''SEED'', VStr ''x'')]
          [(''TRAIN'', VEdict [(''BATCH_SIZE'', VInt 128)]), (''SEED'', VInt 3)]
   = [(''TRAIN'', Passes), (''BATCH_SIZE'', Passes)] @ (''BATCH'', Key_missing)
     # [(''SEED'', Types_differ TInt TStr)]"
    by simp
  have h2: "\<forall>c\<in>set [(''TRAIN'', Passes), (''BATCH_SIZE'', Passes)]. snd c = Passes"
    by simp
  show ?thesis using h1 missing_key_raises[OF h1 h2] by simp
qed

text \<open>
  The claim as stated fails: \<^verbatim>\<open>'B'\<close> is a key of \<^verbatim>\<open>a\<close> and not of \<^verbatim>\<open>b\<close>,
  yet the merge raises \<^verbatim>\<open>ValueError\<close> for \<^verbatim>\<open>'A'\<close>, which is visited first.
\<close>

theorem missing_key_value_error_counterexample:
  "map_of [(''A'', VInt 1), (''B'', VInt 2)] ''B'' = Some (VInt 2) \<and>
   map_of [(''A'', VStr ''x'')] ''B'' = None \<and>
   raised (merge_a_into_b (VEdict [(''A'', VInt 1), (''B'', VInt 2)])
             (VEdict [(''A'', VStr ''x'')])) = Some (ValueError_type_mismatch TStr TInt ''A'')"
  by simp

text \<open>
  Claim C2, as amended. If some key \<open>k\<close> of both edicts (at the top level or at a nesting
  level the merge reaches) holds values of different types and every check the loop makes
  before the type comparison of \<open>k\<close> passes, that is, no missing key is visited before the
  first mismatched key, then \<^verbatim>\<open>_merge_a_into_b(a, b)\<close> raises \<^verbatim>\<open>ValueError\<close>,
  for the key \<open>k\<close> and with the two types, the configuration's first.
\<close>

theorem type_mismatch_raises:
  assumes "checks as bs = pre @ (k, Types_differ tb ta) # post"
    and "\<forall>c\<in>set pre. snd c = Passes"
  shows "raised (merge_a_into_b (VEdict as) (VEdict bs)) = Some (ValueError_type_mismatch tb ta k)"
proof -
  have "raised (merge_a_into_b (VEdict as) (VEdict bs)) = first_error (checks as bs)"
    by (rule raised_first_error(1)[OF refl refl])
  also have "\<dots> = first_error ((k, Types_differ tb ta) # post)"
    unfolding assms(1) using assms(2) by (rule first_error_after_passes)
  finally show ?thesis by simp
qed

theorem type_mismatch_raises_witness:
  "checks [(''TRAIN'', VEdict [(''BATCH_SIZE'', VFloat 64)]), (''SEEDS'', VInt 1)]
          [(''TRAIN'', VEdict [(''BATCH_SIZE'', VInt 128)]), (''RNG_SEED'', VInt 3)]
   = [(''TRAIN'', Passes)] @ (''BATCH_SIZE'', Types_differ TInt TFloat)
     # [(''SEEDS'', Key_missing)] \<and>
   raised (merge_a_into_b
     (VEdict [(''TRAIN'', VEdict [(''BATCH_SIZE'', VFloat 64)]), (''SEEDS'', VInt 1)])
     (VEdict [(''TRAIN'', VEdict [(''BATCH_SIZE'', VInt 128)]), (''RNG_SEED'', VInt 3)]))
   = Some (ValueError_type_mismatch TInt TFloat ''BATCH_SIZE'')"
proof -
  have h1: "checks [(''TRAIN'', VEdict [(''BATCH_SIZE'', VFloat 64)]), (''SEEDS'', VInt 1)]
          [(''TRAIN'', VEdict [(''BATCH_SIZE'', VInt 128)]), (''RNG_SEED'', VInt 3)]
   = [(''TRAIN'', Passes)] @ (''BATCH_SIZE'', Types_differ TInt TFloat)
     # [(''SEEDS'', Key_missing)]"
    by simp
  have h2: "\<forall>c\<in>set [(''TRAIN'', Passes)]. snd c = Passes"
    by simp
  show ?thesis using h1 type_mismatch_raises[OF h1 h2] by simp
qed

text \<open>
  The claim as stated fails: \<^verbatim>\<open>a['B']\<close> is an \<^verbatim>\<open>int\<close> and \<^verbatim>\<open>b['B']\<close> a
  \<^verbatim>\<open>str\<close>, yet the merge raises \<^verbatim>\<open>KeyError\<close> for \<^verbatim>\<open>'A'\<close>, which is visited
  first.
\<close>

theorem type_mismatch_key_error_counterexample:
  "map_of [(''A'', VInt 1), (''B'', VInt 2)] ''B'' = Some (VInt 2) \<and>
   map_of [(''B'', VStr ''x'')] ''B'' = Some (VStr ''x'') \<and>
   type_of (VInt 2) \<noteq> type_of (VStr ''x'') \<and>
   raised (merge_a_into_b (VEdict [(''A'', VInt 1), (''B'', VInt 2)])
             (VEdict [(''B'', VStr ''x'')])) = Some (KeyError ''A'')"
  by simp

text \<open>
  Claim C3. When \<^verbatim>\<open>_merge_a_into_b(a, b)\<close> on two edicts returns without raising, every
  key \<^verbatim>\<open>k\<close> of \<^verbatim>\<open>a\<close> (a dictionary: its keys are distinct) whose value is not an
  edict satisfies \<^verbatim>\<open>b[k] = a[k]\<close> afterwards, and for every key whose value is an edict,
  \<^verbatim>\<open>b[k]\<close> is what the same merge of \<^verbatim>\<open>a[k]\<close> into the old \<^verbatim>\<open>b[k]\<close> leaves,
  a merge that itself returned without raising.
\<close>

theorem merge_clobbers_and_recurses:
  assumes "raised (merge_a_into_b (VEdict as) (VEdict bs)) = None"
    and "distinct (map fst as)"
    and "(k, v) \<in> set as"
  shows "\<exists>bs' bk. after (merge_a_into_b (VEdict as) (VEdict bs)) = VEdict bs' \<and>
           map_of bs k = Some bk \<and>
           (if type_of v = TEdict
            then raised (merge_a_into_b v bk) = None \<and>
                 map_of bs' k = Some (after (merge_a_into_b v bk))
            else map_of bs' k = Some v)"
proof -
  obtain bs' where a: "after (merge_items as (VEdict bs)) = VEdict bs'"
    using after_is_edict by blast
  from assms(1) have ok: "raised (merge_items as (VEdict bs)) = None" by simp
  from merge_items_result[OF ok assms(2,3) a]
  obtain bk where "map_of bs k = Some bk"
      "type_of v = TEdict \<longrightarrow> raised (merge_a_into_b v bk) = None"
      "map_of bs' k = Some (merged_entry v bk)" by blast
  then show ?thesis using a by (auto simp: merged_entry_def)
qed

theorem merge_clobbers_and_recurses_witness:
  "raised (merge_a_into_b
      (VEdict [(''TRAIN'', VEdict [(''BATCH_SIZE'', VInt 64)]), (''EXP_DIR'', VStr ''kitti'')])
      (VEdict [(''EXP_DIR'', VStr ''default''),
               (''TRAIN'', VEdict [(''BATCH_SIZE'', VInt 128), (''USE_FLIPPED'', VBool True)])]))
     = None \<and>
   distinct (map fst [(''TRAIN'', VEdict [(''BATCH_SIZE'', VInt 64)]), (''EXP_DIR'', VStr ''kitti'')]) \<and>
   (''TRAIN'', VEdict [(''BATCH_SIZE'', VInt 64)]) \<in>
     set [(''TRAIN'', VEdict [(''BATCH_SIZE'', VInt 64)]), (''EXP_DIR'', VStr ''kitti'')] \<and>
   (\<exists>bs' bk. after (merge_a_into_b
      (VEdict [(''TRAIN'', VEdict [(''BATCH_SIZE'', VInt 64)]), (''EXP_DIR'', VStr ''kitti'')])
      (VEdict [(''EXP_DIR'', VStr ''default''),
               (''TRAIN'', VEdict [(''BATCH_SIZE'', VInt 128), (''USE_FLIPPED'', VBool True)])]))
        = VEdict bs' \<and>
      bk = VEdict [(''BATCH_SIZE'', VInt 128), (''USE_FLIPPED'', VBool True)] \<and>
      map_of bs' ''TRAIN'' = Some (VEdict [(''BATCH_SIZE'', VInt 64), (''USE_FLIPPED'', VBool True)]))"
proof -
  let ?a = "[(''TRAIN'', VEdict [(''BATCH_SIZE'', VInt 64)]), (''EXP_DIR'', VStr ''kitti'')]"
  let ?b = "[(''EXP_DIR'', VStr ''default''),
             (''TRAIN'', VEdict [(''BATCH_SIZE'', VInt 128), (''USE_FLIPPED'', VBool True)])]"
  have h1: "raised (merge_a_into_b (VEdict ?a) (VEdict ?b)) = None" by simp
  have h2: "distinct (map fst ?a)" by simp
  have h3: "(''TRAIN'', VEdict [(''BATCH_SIZE'', VInt 64)]) \<in> set ?a" by simp
  show ?thesis using h1 h2 h3 merge_clobbers_and_recurses[OF h1 h2 h3] by simp
qed

text \<open>
  Claim C9. For a value \<^verbatim>\<open>a\<close> that is not an edict, \<^verbatim>\<open>_merge_a_into_b(a, b)\<close>
  returns normally, prints nothing and leaves \<^verbatim>\<open>b\<close> as it was; so a merge into an edict
  raises only when \<^verbatim>\<open>a\<close> is an edict with a key the configuration lacks or with a value
  of a different type.
\<close>

theorem non_edict_merge_is_noop:
  "(type_of a \<noteq> TEdict \<longrightarrow>
      merge_a_into_b a b = \<lparr>raised = None, after = b, printed = []\<rparr>) \<and>
   (raised (merge_a_into_b a (VEdict bs)) \<noteq> None \<longrightarrow>
      (\<exists>as. a = VEdict as \<and> (missing_key as bs \<or> type_mismatch as bs)))"
proof (intro conjI impI)
  assume "type_of a \<noteq> TEdict"
  then show "merge_a_into_b a b = \<lparr>raised = None, after = b, printed = []\<rparr>"
    by (cases a) simp_all
next
  assume r: "raised (merge_a_into_b a (VEdict bs)) \<noteq> None"
  then obtain as where a: "a = VEdict as" by (cases a) auto
  have "explains (raised (merge_a_into_b a (VEdict bs))) as bs"
    by (rule explains_merge(1)[OF refl a])
  with r have "missing_key as bs \<or> type_mismatch as bs"
    by (auto simp: explains_def)
  with a show "\<exists>as. a = VEdict as \<and> (missing_key as bs \<or> type_mismatch as bs)" by blast
qed

theorem non_edict_merge_is_noop_witness:
  "type_of (VTuple [VFloat 0.25, VFloat 0.5]) \<noteq> TEdict \<and>
   merge_a_into_b (VTuple [VFloat 0.25, VFloat 0.5]) (VEdict [(''RNG_SEED'', VInt 3)]) =
     \<lparr>raised = None, after = VEdict [(''RNG_SEED'', VInt 3)], printed = []\<rparr> \<and>
   raised (merge_a_into_b (VEdict [(''SEED'', VInt 7)]) (VEdict [(''RNG_SEED'', VInt 3)])) \<noteq> None \<and>
   (\<exists>as. VEdict [(''SEED'', VInt 7)] = VEdict as \<and>
      (missing_key as [(''RNG_SEED'', VInt 3)] \<or> type_mismatch as [(''RNG_SEED'', VInt 3)]))"
proof -
  have h1: "type_of (VTuple [VFloat 0.25, VFloat 0.5]) \<noteq> TEdict" by simp
  have h2: "raised (merge_a_into_b (VEdict [(''SEED'', VInt 7)])
              (VEdict [(''RNG_SEED'', VInt 3)])) \<noteq> None" by simp
  show ?thesis
    using h1 h2
      non_edict_merge_is_noop[of "VTuple [VFloat 0.25, VFloat 0.5]" "VEdict [(''RNG_SEED'', VInt 3)]"
         "[(''RNG_SEED'', VInt 3)]"]
      non_edict_merge_is_noop[of "VEdict [(''SEED'', VInt 7)]" "VEdict [(''RNG_SEED'', VInt 3)]"
         "[(''RNG_SEED'', VInt 3)]"]
    by simp
qed

section \<open>Python numbers\<close>

text \<open>
  The arithmetic of \<^verbatim>\<open>_add_more_info\<close> on configuration values. A number is an
  \<^verbatim>\<open>int\<close>, a \<^verbatim>\<open>long\<close> or a \<^verbatim>\<open>float\<close>; \<^verbatim>\<open>bool\<close> is a subclass of
  \<^verbatim>\<open>int\<close> and counts as 0 or 1.
\<close>

datatype pynum = PInt int | PLong int | PFloat real

fun operand :: "pyval \<Rightarrow> error + pynum" where
  "operand (VInt i) = Inr (PInt i)"
| "operand (VLong i) = Inr (PLong i)"
| "operand (VBool b) = Inr (PInt (if b then 1 else 0))"
| "operand (VFloat r) = Inr (PFloat r)"
| "operand (VNdarray _) = Inl Outside_model"
| "operand _ = Inl TypeError"

fun val_of_num :: "pynum \<Rightarrow> pyval" where
  "val_of_num (PInt i) = VInt i"
| "val_of_num (PLong i) = VLong i"
| "val_of_num (PFloat r) = VFloat r"

fun real_of_num :: "pynum \<Rightarrow> real" where
  "real_of_num (PInt i) = real_of_int i"
| "real_of_num (PLong i) = real_of_int i"
| "real_of_num (PFloat r) = r"

text \<open>
  An operation on two integers gives an \<^verbatim>\<open>int\<close> when both are and the result fits a
  machine word (64 bits, \<^verbatim>\<open>sys.maxint = 2 ** 63 - 1\<close>) and a \<^verbatim>\<open>long\<close> otherwise;
  \<^verbatim>\<open>/\<close> on two integers is the floor division of Python 2 (the module has no
  \<^verbatim>\<open>from __future__ import division\<close>), which is \<open>div\<close> on \<open>int\<close>. With a
  \<^verbatim>\<open>float\<close> on either side the operation is the one on real numbers.
\<close>

fun integral :: "pynum \<Rightarrow> int option" where
  "integral (PInt i) = Some i"
| "integral (PLong i) = Some i"
| "integral (PFloat _) = None"

fun is_long :: "pynum \<Rightarrow> bool" where
  "is_long (PLong _) = True"
| "is_long _ = False"

definition int_result :: "pynum \<Rightarrow> pynum \<Rightarrow> int \<Rightarrow> pynum" where
  "int_result x y r =
     (if is_long x \<or> is_long y \<or> r < - (2 ^ 63) \<or> 2 ^ 63 \<le> r then PLong r else PInt r)"

definition num_add :: "pynum \<Rightarrow> pynum \<Rightarrow> pynum" where
  "num_add x y =
     (case (integral x, integral y) of
        (Some i, Some j) \<Rightarrow> int_result x y (i + j)
      | _ \<Rightarrow> PFloat (real_of_num x + real_of_num y))"

definition num_sub :: "pynum \<Rightarrow> pynum \<Rightarrow> pynum" where
  "num_sub x y =
     (case (integral x, integral y) of
        (Some i, Some j) \<Rightarrow> int_result x y (i - j)
      | _ \<Rightarrow> PFloat (real_of_num x - real_of_num y))"

definition num_mul :: "pynum \<Rightarrow> pynum \<Rightarrow> pynum" where
  "num_mul x y =
     (case (integral x, integral y) of
        (Some i, Some j) \<Rightarrow> int_result x y (i * j)
      | _ \<Rightarrow> PFloat (real_of_num x * real_of_num y))"

definition num_div :: "pynum \<Rightarrow> pynum \<Rightarrow> error + pynum" where
  "num_div x y =
     (case (integral x, integral y) of
        (Some i, Some j) \<Rightarrow>
          if j = 0 then Inl ZeroDivisionError else Inr (int_result x y (i div j))
      | _ \<Rightarrow>
          if real_of_num y = 0 then Inl ZeroDivisionError
          else Inr (PFloat (real_of_num x / real_of_num y)))"

text \<open>
  The four operators as the loop uses them. \<^verbatim>\<open>-\<close> and \<^verbatim>\<open>/\<close> raise
  \<^verbatim>\<open>TypeError\<close> on anything that is no number; \<^verbatim>\<open>+\<close> on two sequences and
  \<^verbatim>\<open>*\<close> on a sequence and a number concatenate and repeat, which is not represented.
\<close>

fun is_sequence :: "pyval \<Rightarrow> bool" where
  "is_sequence (VStr _) = True"
| "is_sequence (VUnicode _) = True"
| "is_sequence (VTuple _) = True"
| "is_sequence (VList _) = True"
| "is_sequence _ = False"

definition operands :: "pyval \<Rightarrow> pyval \<Rightarrow> error + pynum \<times> pynum" where
  "operands a b =
     (if type_of a = TNdarray \<or> type_of b = TNdarray then Inl Outside_model
      else case operand a of
             Inl e \<Rightarrow> Inl e
           | Inr x \<Rightarrow> (case operand b of Inl e \<Rightarrow> Inl e | Inr y \<Rightarrow> Inr (x, y)))"

definition py_sub :: "pyval \<Rightarrow> pyval \<Rightarrow> error + pyval" where
  "py_sub a b =
     (case operands a b of Inl e \<Rightarrow> Inl e | Inr (x, y) \<Rightarrow> Inr (val_of_num (num_sub x y)))"

definition py_div :: "pyval \<Rightarrow> pyval \<Rightarrow> error + pyval" where
  "py_div a b =
     (case operands a b of
        Inl e \<Rightarrow> Inl e
      | Inr (x, y) \<Rightarrow> (case num_div x y of Inl e \<Rightarrow> Inl e | Inr q \<Rightarrow> Inr (val_of_num q)))"

definition py_add :: "pyval \<Rightarrow> pyval \<Rightarrow> error + pyval" where
  "py_add a b =
     (if is_sequence a \<and> is_sequence b then Inl Outside_model
      else case operands a b of Inl e \<Rightarrow> Inl e | Inr (x, y) \<Rightarrow> Inr (val_of_num (num_add x y)))"

definition py_mul :: "pyval \<Rightarrow> pyval \<Rightarrow> error + pyval" where
  "py_mul a b =
     (if is_sequence a \<noteq> is_sequence b then Inl Outside_model
      else case operands a b of Inl e \<Rightarrow> Inl e | Inr (x, y) \<Rightarrow> Inr (val_of_num (num_mul x y)))"

section \<open>The scales of the image pyramid\<close>

text \<open>
  The first loop of \<^verbatim>\<open>_add_more_info\<close>. \<^verbatim>\<open>scales_base[i]\<close> on a tuple or list:
  a negative index counts from the end, an index out of range raises
  \<^verbatim>\<open>IndexError\<close>. \<^verbatim>\<open>xrange(n)\<close> is empty for \<open>n \<le> 0\<close>. The loop index and
  \<^verbatim>\<open>num_per_octave\<close> are \<^verbatim>\<open>int\<close>s, so \<^verbatim>\<open>i / num_per_octave\<close> and
  \<^verbatim>\<open>i % num_per_octave\<close> are \<open>div\<close> and \<open>mod\<close>, raising
  \<^verbatim>\<open>ZeroDivisionError\<close> for 0. Lists are as long as the loop makes them: memory is not
  bounded here, nor is the argument of \<^verbatim>\<open>xrange\<close>, which Python limits to a machine
  word.
\<close>

definition tuple_getitem :: "pyval list \<Rightarrow> int \<Rightarrow> error + pyval" where
  "tuple_getitem xs i =
     (if 0 \<le> i \<and> i < int (length xs) then Inr (xs ! nat i)
      else if i < 0 \<and> - int (length xs) \<le> i then Inr (xs ! nat (int (length xs) + i))
      else Inl IndexError)"

definition xrange :: "int \<Rightarrow> int list" where
  "xrange n = map int [0..<nat n]"

definition int_div :: "int \<Rightarrow> int \<Rightarrow> error + int" where
  "int_div a b = (if b = 0 then Inl ZeroDivisionError else Inr (a div b))"

definition int_mod :: "int \<Rightarrow> int \<Rightarrow> error + int" where
  "int_mod a b = (if b = 0 then Inl ZeroDivisionError else Inr (a mod b))"

fun scales_loop :: "pyval list \<Rightarrow> int \<Rightarrow> int list \<Rightarrow> pyval list \<Rightarrow> error + pyval list" where
  "scales_loop scales_base num_per_octave [] scales = Inr scales"
| "scales_loop scales_base num_per_octave (i # rest) scales =
     (case int_div i num_per_octave of
        Inl e \<Rightarrow> Inl e
      | Inr index_scale_base \<Rightarrow>
     (case tuple_getitem scales_base index_scale_base of
        Inl e \<Rightarrow> Inl e
      | Inr sbase \<Rightarrow>
     (case int_mod i num_per_octave of
        Inl e \<Rightarrow> Inl e
      | Inr j \<Rightarrow>
          if j = 0 then scales_loop scales_base num_per_octave rest (scales @ [sbase])
          else
     (case tuple_getitem scales_base (index_scale_base + 1) of
        Inl e \<Rightarrow> Inl e
      | Inr sbase_next \<Rightarrow>
     (case py_sub sbase_next sbase of
        Inl e \<Rightarrow> Inl e
      | Inr d \<Rightarrow>
     (case py_div d (VInt num_per_octave) of
        Inl e \<Rightarrow> Inl e
      | Inr step \<Rightarrow>
     (case py_mul (VInt j) step of
        Inl e \<Rightarrow> Inl e
      | Inr js \<Rightarrow>
     (case py_add sbase js of
        Inl e \<Rightarrow> Inl e
      | Inr s \<Rightarrow> scales_loop scales_base num_per_octave rest (scales @ [s])))))))))"

definition num_scales :: "pyval list \<Rightarrow> int \<Rightarrow> int" where
  "num_scales scales_base num_per_octave = (int (length scales_base) - 1) * num_per_octave + 1"

definition compute_scales :: "pyval list \<Rightarrow> int \<Rightarrow> error + pyval list" where
  "compute_scales scales_base num_per_octave =
     scales_loop scales_base num_per_octave (xrange (num_scales scales_base num_per_octave)) []"

subsection \<open>The indices of the loop\<close>

lemma xrange_set: "i \<in> set (xrange n) \<longleftrightarrow> 0 \<le> i \<and> i < n"
proof
  assume "i \<in> set (xrange n)"
  then obtain k where k: "i = int k" "k < nat n" by (auto simp: xrange_def)
  then have "nat (int k) < nat n" by simp
  then have "int k < n" by (simp only: zless_nat_conj)
  with k show "0 \<le> i \<and> i < n" by simp
next
  assume a: "0 \<le> i \<and> i < n"
  then have "nat i < nat n" by (simp add: zless_nat_conj)
  then have "int (nat i) \<in> set (xrange n)" by (simp add: xrange_def del: int_nat_eq)
  with a show "i \<in> set (xrange n)" by simp
qed

lemma base_index_bounds:
  assumes n: "1 \<le> (n::int)" and p: "1 \<le> (p::int)" and i: "0 \<le> (i::int)" "i < (n - 1) * p + 1"
  shows "0 \<le> i div p" "i div p < n" "i mod p \<noteq> 0 \<Longrightarrow> i div p + 1 < n"
proof -
  from p have p0: "0 < p" by simp
  show "0 \<le> i div p" using i(1) p0 by (simp add: pos_imp_zdiv_nonneg_iff)
  have le: "i \<le> (n - 1) * p" using i(2) by simp
  have "i div p \<le> ((n - 1) * p) div p" using le p0 by (rule zdiv_mono1)
  then have d: "i div p \<le> n - 1" using p0 by simp
  then show "i div p < n" by simp
  assume m: "i mod p \<noteq> 0"
  have "i \<noteq> (n - 1) * p" using m by auto
  with le have "i < (n - 1) * p" by simp
  have "i div p < n - 1"
  proof (rule ccontr)
    assume "\<not> i div p < n - 1"
    then have "n - 1 \<le> i div p" by simp
    then have "(n - 1) * p \<le> (i div p) * p" using p0 by (simp add: mult_right_mono)
    moreover have "0 \<le> i mod p" using p0 by (rule pos_mod_sign)
    moreover have "(i div p) * p + i mod p = i" by (rule div_mult_mod_eq)
    ultimately show False using \<open>i < (n - 1) * p\<close> by linarith
  qed
  then show "i div p + 1 < n" by simp
qed

lemma tuple_getitem_ok: "0 \<le> i \<Longrightarrow> i < int (length xs) \<Longrightarrow> tuple_getitem xs i = Inr (xs ! nat i)"
  by (simp add: tuple_getitem_def)


lemma operands_no_index_error: "operands a b \<noteq> Inl IndexError"
proof -
  have "operand v \<noteq> Inl IndexError" for v by (cases v) simp_all
  from this [of a] this [of b] show ?thesis
    by (auto simp: operands_def split: sum.splits)
qed

lemma num_div_no_index_error: "num_div x y \<noteq> Inl IndexError"
  by (simp add: num_div_def split: option.splits)

lemma arithmetic_no_index_error:
  "py_sub a b \<noteq> Inl IndexError" "py_div a b \<noteq> Inl IndexError"
  "py_mul a b \<noteq> Inl IndexError" "py_add a b \<noteq> Inl IndexError"
  using operands_no_index_error [of a b] num_div_no_index_error
  by (auto simp: py_sub_def py_div_def py_mul_def py_add_def split: sum.splits prod.splits)

lemma scales_loop_no_index_error:
  assumes n: "1 \<le> int (length scales_base)" and p: "1 \<le> p"
    and idx: "\<And>i. i \<in> set indices \<Longrightarrow> 0 \<le> i \<and> i < num_scales scales_base p"
  shows "scales_loop scales_base p indices scales \<noteq> Inl IndexError"
  using idx
proof (induction indices arbitrary: scales)
  case Nil
  show ?case by simp
next
  case (Cons i rest)
  have i: "0 \<le> i" "i < (int (length scales_base) - 1) * p + 1"
    using Cons.prems [of i] by (simp_all add: num_scales_def)
  have rest: "scales_loop scales_base p rest acc \<noteq> Inl IndexError" for acc
    by (rule Cons.IH) (simp add: Cons.prems)
  have p0: "p \<noteq> 0" using p by simp
  have g: "tuple_getitem scales_base (i div p) = Inr (scales_base ! nat (i div p))"
    by (rule tuple_getitem_ok) (rule base_index_bounds [OF n p i])+
  show ?case
  proof (cases "i mod p = 0")
    case True
    then show ?thesis using p0 g rest by (simp add: int_div_def int_mod_def)
  next
    case False
    have lo: "0 \<le> i div p + 1" using base_index_bounds(1) [OF n p i] by simp
    have g1: "tuple_getitem scales_base (i div p + 1) = Inr (scales_base ! nat (i div p + 1))"
      using lo base_index_bounds(3) [OF n p i False] by (rule tuple_getitem_ok)
    show ?thesis
      using False p0 g g1 rest arithmetic_no_index_error
      by (auto simp: int_div_def int_mod_def split: sum.splits)
  qed
qed

subsection \<open>Linear interpolation\<close>

text \<open>
  The entry the linear interpolation between consecutive base scales puts at index \<open>i\<close>,
  on real numbers: the value the loop is to be compared with.
\<close>

definition spec_scale :: "real list \<Rightarrow> int \<Rightarrow> int \<Rightarrow> real" where
  "spec_scale base p i =
     (if i mod p = 0 then base ! nat (i div p)
      else base ! nat (i div p)
           + real_of_int (i mod p) * (base ! nat (i div p + 1) - base ! nat (i div p))
             / real_of_int p)"

lemma float_getitem:
  assumes "0 \<le> i" and "i < int (length rs)"
  shows "tuple_getitem (map VFloat rs) i = Inr (VFloat (rs ! nat i))"
proof -
  have "nat i < length rs" using assms by simp
  then have "map VFloat rs ! nat i = VFloat (rs ! nat i)" by (rule nth_map)
  moreover have "tuple_getitem (map VFloat rs) i = Inr (map VFloat rs ! nat i)"
    by (rule tuple_getitem_ok) (simp_all add: assms)
  ultimately show ?thesis by simp
qed

lemma float_step:
  assumes "p \<noteq> 0"
  shows "py_sub (VFloat y) (VFloat x) = Inr (VFloat (y - x))"
    and "py_div (VFloat d) (VInt p) = Inr (VFloat (d / real_of_int p))"
    and "py_mul (VInt j) (VFloat s) = Inr (VFloat (real_of_int j * s))"
    and "py_add (VFloat x) (VFloat t) = Inr (VFloat (x + t))"
  using assms
  by (simp_all add: py_sub_def py_div_def py_mul_def py_add_def operands_def
      num_sub_def num_div_def num_mul_def num_add_def)

lemma scales_loop_floats:
  assumes n: "1 \<le> int (length rs)" and p: "1 \<le> p"
    and idx: "\<And>i. i \<in> set indices \<Longrightarrow> 0 \<le> i \<and> i < (int (length rs) - 1) * p + 1"
  shows "scales_loop (map VFloat rs) p indices scales
         = Inr (scales @ map (\<lambda>i. VFloat (spec_scale rs p i)) indices)"
  using idx
proof (induction indices arbitrary: scales)
  case Nil
  show ?case by simp
next
  case (Cons i rest)
  have i: "0 \<le> i" "i < (int (length rs) - 1) * p + 1"
    using Cons.prems [of i] by simp_all
  have rest: "scales_loop (map VFloat rs) p rest acc
              = Inr (acc @ map (\<lambda>i. VFloat (spec_scale rs p i)) rest)" for acc
  proof (rule Cons.IH)
    fix j assume "j \<in> set rest"
    then show "0 \<le> j \<and> j < (int (length rs) - 1) * p + 1"
      using Cons.prems [of j] by simp
  qed
  have p0: "p \<noteq> 0" using p by simp
  have g: "tuple_getitem (map VFloat rs) (i div p) = Inr (VFloat (rs ! nat (i div p)))"
    by (rule float_getitem) (rule base_index_bounds [OF n p i])+
  show ?case
  proof (cases "i mod p = 0")
    case True
    then show ?thesis using p0 g rest
      by (simp add: int_div_def int_mod_def spec_scale_def)
  next
    case False
    have lo: "0 \<le> i div p + 1" using base_index_bounds(1) [OF n p i] by simp
    have g1: "tuple_getitem (map VFloat rs) (i div p + 1) = Inr (VFloat (rs ! nat (i div p + 1)))"
      using lo base_index_bounds(3) [OF n p i False] by (rule float_getitem)
    show ?thesis using False p0 g g1 rest
      by (simp add: int_div_def int_mod_def spec_scale_def float_step [OF p0])
  qed
qed

lemma float_scales_interpolate:
  assumes "1 \<le> length rs" and "1 \<le> p"
  shows "compute_scales (map VFloat rs) p
         = Inr (map (\<lambda>i. VFloat (spec_scale rs p i)) (xrange ((int (length rs) - 1) * p + 1)))"
proof -
  have n: "1 \<le> int (length rs)" using assms(1) by simp
  have "scales_loop (map VFloat rs) p (xrange ((int (length rs) - 1) * p + 1)) []
        = Inr ([] @ map (\<lambda>i. VFloat (spec_scale rs p i)) (xrange ((int (length rs) - 1) * p + 1)))"
    by (rule scales_loop_floats [OF n assms(2)]) (simp add: xrange_set)
  then show ?thesis by (simp add: compute_scales_def num_scales_def)
qed

lemma scales_loop_length:
  "scales_loop scales_base p indices scales = Inr out \<Longrightarrow>
   length out = length scales + length indices"
proof (induction indices arbitrary: scales)
  case Nil
  then show ?case by simp
next
  case (Cons i rest)
  from Cons.prems obtain s where "scales_loop scales_base p rest (scales @ [s]) = Inr out"
    by (auto split: sum.splits if_splits)
  from Cons.IH [OF this] show ?case by simp
qed

lemma scales_length:
  "compute_scales scales_base p = Inr scales \<Longrightarrow>
   int (length scales) = max 0 ((int (length scales_base) - 1) * p + 1)"
  unfolding compute_scales_def
  by (drule scales_loop_length) (simp add: xrange_def num_scales_def)

section \<open>Claims about the scales\<close>

text \<open>
  Claim C6. For a base-scale tuple of length at least 1 and an integer
  \<^verbatim>\<open>NUM_PER_OCTAVE = p\<close> of at least 1, every index the loop uses is in bounds: for each
  loop index \<open>i\<close> in \<^verbatim>\<open>xrange((n - 1) * p + 1)\<close>, \<^verbatim>\<open>scales_base[i / p]\<close>
  is the element at that position, and so is \<^verbatim>\<open>scales_base[i / p + 1]\<close> whenever
  \<^verbatim>\<open>i % p\<close> is not 0; the loop as a whole never raises \<^verbatim>\<open>IndexError\<close>.
\<close>

theorem scale_indices_in_bounds:
  assumes "1 \<le> length scales_base" and "1 \<le> p"
    and "i \<in> set (xrange (num_scales scales_base p))"
  shows "tuple_getitem scales_base (i div p) = Inr (scales_base ! nat (i div p))
       \<and> (i mod p \<noteq> 0 \<longrightarrow>
            tuple_getitem scales_base (i div p + 1) = Inr (scales_base ! nat (i div p + 1)))
       \<and> compute_scales scales_base p \<noteq> Inl IndexError"
proof -
  have n: "1 \<le> int (length scales_base)" using assms(1) by simp
  have i: "0 \<le> i" "i < (int (length scales_base) - 1) * p + 1"
    using assms(3) by (simp_all add: xrange_set num_scales_def)
  have a: "tuple_getitem scales_base (i div p) = Inr (scales_base ! nat (i div p))"
    by (rule tuple_getitem_ok) (rule base_index_bounds [OF n assms(2) i])+
  have b: "tuple_getitem scales_base (i div p + 1) = Inr (scales_base ! nat (i div p + 1))"
    if m: "i mod p \<noteq> 0"
  proof -
    have lo: "0 \<le> i div p + 1" using base_index_bounds(1) [OF n assms(2) i] by simp
    show ?thesis using lo base_index_bounds(3) [OF n assms(2) i m] by (rule tuple_getitem_ok)
  qed
  have c: "compute_scales scales_base p \<noteq> Inl IndexError"
    unfolding compute_scales_def
    by (rule scales_loop_no_index_error [OF n assms(2)]) (simp add: xrange_set)
  from a b c show ?thesis by simp
qed

theorem scale_indices_in_bounds_witness:
  "1 \<in> set (xrange (num_scales [VFloat 1, VFloat 2] 4))
   \<and> tuple_getitem [VFloat 1, VFloat 2] (1 div 4) = Inr ([VFloat 1, VFloat 2] ! nat (1 div 4))
   \<and> 1 mod 4 \<noteq> (0::int)
   \<and> tuple_getitem [VFloat 1, VFloat 2] (1 div 4 + 1) = Inr ([VFloat 1, VFloat 2] ! nat (1 div 4 + 1))
   \<and> compute_scales [VFloat 1, VFloat 2] 4 \<noteq> Inl IndexError"
  using scale_indices_in_bounds [of "[VFloat 1, VFloat 2]" 4 1]
  by (simp add: xrange_def num_scales_def upt_rec)

text \<open>
  Claim C5 fails on a tuple of integers. For \<^verbatim>\<open>SCALES_BASE = (1, 3)\<close> and
  \<^verbatim>\<open>NUM_PER_OCTAVE = 4\<close> the step is \<^verbatim>\<open>(3 - 1) / 4\<close>, which is 0 in Python 2, and
  the loop gives \<^verbatim>\<open>[1, 1, 1, 1, 3]\<close>; linear interpolation puts 2 at index 2. On
  \<^verbatim>\<open>float\<close> entries the loop does interpolate (\<open>float_scales_interpolate\<close>), and
  its result has the length the claim gives whenever it returns (\<open>scales_length\<close>).
\<close>

theorem integer_scales_floor:
  "compute_scales [VInt 1, VInt 3] 4 = Inr [VInt 1, VInt 1, VInt 1, VInt 1, VInt 3]
   \<and> spec_scale [1, 3] 4 2 = 2"
  by (simp add: compute_scales_def num_scales_def xrange_def tuple_getitem_def
      py_sub_def py_div_def py_mul_def py_add_def operands_def
      num_sub_def num_div_def num_mul_def num_add_def int_result_def
      int_div_def int_mod_def spec_scale_def upt_rec)

section \<open>The grid boxes\<close>

text \<open>
  The last loop of \<^verbatim>\<open>_add_more_info\<close>: for each aspect ratio (height over width) the
  width and the height of a box of area \<^verbatim>\<open>KERNEL_SIZE * KERNEL_SIZE\<close>.
  \<^verbatim>\<open>math.sqrt\<close> takes a number and raises \<^verbatim>\<open>ValueError\<close> below 0.
\<close>

definition math_sqrt :: "pyval \<Rightarrow> error + real" where
  "math_sqrt x =
     (case operand x of
        Inl e \<Rightarrow> Inl e
      | Inr n \<Rightarrow>
          if real_of_num n < 0 then Inl ValueError_math_domain else Inr (sqrt (real_of_num n)))"

text \<open>
  \<^verbatim>\<open>widths\<close> and \<^verbatim>\<open>heights\<close> are one-dimensional \<^verbatim>\<open>float32\<close> arrays made by
  \<^verbatim>\<open>np.zeros\<close> and filled entry by entry; an entry is kept as the real number assigned
  to it. \<^verbatim>\<open>widths[i] * aspect[i]\<close> is a \<^verbatim>\<open>float32\<close> times a configuration value.
\<close>

definition np_zeros :: "nat \<Rightarrow> real list" where
  "np_zeros n = replicate n 0"

definition ndarray_getitem :: "real list \<Rightarrow> int \<Rightarrow> error + real" where
  "ndarray_getitem xs i =
     (if 0 \<le> i \<and> i < int (length xs) then Inr (xs ! nat i)
      else if i < 0 \<and> - int (length xs) \<le> i then Inr (xs ! nat (int (length xs) + i))
      else Inl IndexError)"

definition ndarray_setitem :: "real list \<Rightarrow> int \<Rightarrow> real \<Rightarrow> error + real list" where
  "ndarray_setitem xs i x =
     (if 0 \<le> i \<and> i < int (length xs) then Inr (xs[nat i := x])
      else if i < 0 \<and> - int (length xs) \<le> i then Inr (xs[nat (int (length xs) + i) := x])
      else Inl IndexError)"

definition float32_times :: "real \<Rightarrow> pyval \<Rightarrow> error + real" where
  "float32_times w a = (case operand a of Inl e \<Rightarrow> Inl e | Inr n \<Rightarrow> Inr (w * real_of_num n))"

fun aspect_loop ::
  "pyval \<Rightarrow> pyval list \<Rightarrow> int list \<Rightarrow> real list \<times> real list \<Rightarrow> error + real list \<times> real list" where
  "aspect_loop area aspect [] (widths, heights) = Inr (widths, heights)"
| "aspect_loop area aspect (i # rest) (widths, heights) =
     (case tuple_getitem aspect i of
        Inl e \<Rightarrow> Inl e
      | Inr a \<Rightarrow>
     (case py_div area a of
        Inl e \<Rightarrow> Inl e
      | Inr q \<Rightarrow>
     (case math_sqrt q of
        Inl e \<Rightarrow> Inl e
      | Inr r \<Rightarrow>
     (case ndarray_setitem widths i r of
        Inl e \<Rightarrow> Inl e
      | Inr widths' \<Rightarrow>
     (case ndarray_getitem widths' i of
        Inl e \<Rightarrow> Inl e
      | Inr w \<Rightarrow>
     (case tuple_getitem aspect i of
        Inl e \<Rightarrow> Inl e
      | Inr a' \<Rightarrow>
     (case float32_times w a' of
        Inl e \<Rightarrow> Inl e
      | Inr h \<Rightarrow>
     (case ndarray_setitem heights i h of
        Inl e \<Rightarrow> Inl e
      | Inr heights' \<Rightarrow> aspect_loop area aspect rest (widths', heights')))))))))"

definition aspect_grid :: "pyval \<Rightarrow> pyval list \<Rightarrow> error + real list \<times> real list" where
  "aspect_grid kernel_size aspect =
     (case py_mul kernel_size kernel_size of
        Inl e \<Rightarrow> Inl e
      | Inr area \<Rightarrow>
          aspect_loop area aspect (xrange (int (length aspect)))
            (np_zeros (length aspect), np_zeros (length aspect)))"


lemmas arith_defs = py_sub_def py_div_def py_mul_def py_add_def operands_def
      num_sub_def num_div_def num_mul_def num_add_def int_result_def

text \<open>
  On \<^verbatim>\<open>float\<close> aspect ratios above 0 the loop gives the widths and heights of boxes
  of area \<^verbatim>\<open>KERNEL_SIZE * KERNEL_SIZE\<close>.
\<close>

lemma fill_step:
  assumes "m < length rs"
  shows "ndarray_setitem (map f (take m rs) @ replicate (length rs - m) 0) (int m) x
         = Inr (map f (take m rs) @ x # replicate (length rs - Suc m) 0)"
    and "ndarray_getitem (map f (take m rs) @ x # replicate (length rs - Suc m) 0) (int m) = Inr x"
proof -
  have r: "replicate (length rs - m) (0::real) = 0 # replicate (length rs - Suc m) 0"
    using assms by (cases "length rs - m") (simp_all add: Suc_diff_Suc)
  have l: "length (map f (take m rs)) = m" using assms by simp
  have "(map f (take m rs) @ 0 # replicate (length rs - Suc m) 0)[m := x]
        = map f (take m rs) @ x # replicate (length rs - Suc m) 0"
    using list_update_length [of "map f (take m rs)" 0 "replicate (length rs - Suc m) 0" x]
    by (simp only: l)
  then show "ndarray_setitem (map f (take m rs) @ replicate (length rs - m) 0) (int m) x
         = Inr (map f (take m rs) @ x # replicate (length rs - Suc m) 0)"
    using assms by (simp add: ndarray_setitem_def r)
  have "(map f (take m rs) @ x # replicate (length rs - Suc m) 0) ! m = x"
    using nth_append_length [of "map f (take m rs)" x "replicate (length rs - Suc m) 0"]
    by (simp only: l)
  then show "ndarray_getitem (map f (take m rs) @ x # replicate (length rs - Suc m) 0) (int m) = Inr x"
    using assms by (simp add: ndarray_getitem_def)
qed

lemma aspect_loop_floats:
  assumes area: "\<And>r. r \<noteq> 0 \<Longrightarrow> py_div area (VFloat r) = Inr (VFloat (A / r))"
    and A: "0 \<le> A" and pos: "\<forall>r\<in>set rs. 0 < r"
  shows "m \<le> length rs \<Longrightarrow>
         aspect_loop area (map VFloat rs) (map int [m..<length rs])
           (map (\<lambda>r. sqrt (A / r)) (take m rs) @ replicate (length rs - m) 0,
            map (\<lambda>r. sqrt (A / r) * r) (take m rs) @ replicate (length rs - m) 0)
         = Inr (map (\<lambda>r. sqrt (A / r)) rs, map (\<lambda>r. sqrt (A / r) * r) rs)"
proof (induction "length rs - m" arbitrary: m)
  case 0
  then have "m = length rs" by simp
  then show ?case by simp
next
  case (Suc d)
  then have m: "m < length rs" by simp
  let ?r = "rs ! m"
  have r: "0 < ?r" using pos m by simp
  have idx: "[m..<length rs] = m # [Suc m..<length rs]" using m by (rule upt_conv_Cons)
  have g: "tuple_getitem (map VFloat rs) (int m) = Inr (VFloat ?r)"
    using m by (simp add: tuple_getitem_def)
  have d: "py_div area (VFloat ?r) = Inr (VFloat (A / ?r))" using r by (intro area) simp
  have q: "math_sqrt (VFloat (A / ?r)) = Inr (sqrt (A / ?r))"
    using A r by (simp add: math_sqrt_def not_less)
  have h: "float32_times w (VFloat ?r) = Inr (w * ?r)" for w
    by (simp add: float32_times_def)
  have t: "take (Suc m) rs = take m rs @ [?r]" using m by (rule take_Suc_conv_app_nth)
  have ih: "aspect_loop area (map VFloat rs) (map int [Suc m..<length rs])
           (map (\<lambda>r. sqrt (A / r)) (take (Suc m) rs) @ replicate (length rs - Suc m) 0,
            map (\<lambda>r. sqrt (A / r) * r) (take (Suc m) rs) @ replicate (length rs - Suc m) 0)
         = Inr (map (\<lambda>r. sqrt (A / r)) rs, map (\<lambda>r. sqrt (A / r) * r) rs)"
    using Suc.hyps(2) m by (intro Suc.hyps(1)) simp_all
  show ?case
    unfolding idx using ih
    by (simp add: g d q h fill_step [OF m] t)
qed

lemma float_aspect_grid:
  assumes "\<forall>r\<in>set rs. 0 < r"
  shows "aspect_grid (VInt k) (map VFloat rs)
         = Inr (map (\<lambda>r. sqrt (real_of_int (k * k) / r)) rs,
                map (\<lambda>r. sqrt (real_of_int (k * k) / r) * r) rs)"
proof -
  obtain area where a: "py_mul (VInt k) (VInt k) = Inr area"
    and d: "\<And>r. r \<noteq> 0 \<Longrightarrow> py_div area (VFloat r) = Inr (VFloat (real_of_int (k * k) / r))"
    by (simp add: arith_defs)
  have "aspect_loop area (map VFloat rs) (map int [0..<length rs])
           (map (\<lambda>r. sqrt (real_of_int (k * k) / r)) (take 0 rs) @ replicate (length rs - 0) 0,
            map (\<lambda>r. sqrt (real_of_int (k * k) / r) * r) (take 0 rs) @ replicate (length rs - 0) 0)
         = Inr (map (\<lambda>r. sqrt (real_of_int (k * k) / r)) rs,
                map (\<lambda>r. sqrt (real_of_int (k * k) / r) * r) rs)"
    using d _ assms by (rule aspect_loop_floats) simp_all
  then show ?thesis by (simp add: aspect_grid_def a xrange_def np_zeros_def)
qed

lemma width_times_height:
  assumes "0 < r"
  shows "sqrt (real_of_int (k * k) / r) * (sqrt (real_of_int (k * k) / r) * r) = real_of_int (k * k)"
proof -
  define x where "x = real_of_int (k * k) / r"
  have "0 \<le> real_of_int (k * k)" by simp
  then have x: "0 \<le> x" unfolding x_def using assms by (intro divide_nonneg_pos)
  have "sqrt x * sqrt x = \<bar>x\<bar>" by (rule real_sqrt_mult_self)
  with x have "sqrt x * sqrt x = x" by simp
  then have "sqrt x * (sqrt x * r) = x * r" by (simp only: mult.assoc [symmetric])
  also have "x * r = real_of_int (k * k)" unfolding x_def using assms by simp
  finally show ?thesis unfolding x_def .
qed

section \<open>Claims about the grid boxes\<close>

text \<open>
  Claim C7 fails on an integer aspect ratio. For \<^verbatim>\<open>KERNEL_SIZE = 5\<close> and
  \<^verbatim>\<open>ASPECTS = (2,)\<close> the quotient \<^verbatim>\<open>area / aspect[i]\<close> is \<^verbatim>\<open>25 / 2\<close>, which
  is 12 in Python 2: the width is the square root of 12, the height twice that, and their
  product is 24 where \<^verbatim>\<open>KERNEL_SIZE * KERNEL_SIZE\<close> is 25. On \<^verbatim>\<open>float\<close> ratios
  the product is the area (\<open>float_aspect_grid\<close>, \<open>width_times_height\<close>).
\<close>

theorem integer_aspect_floor:
  "aspect_grid (VInt 5) [VInt 2] = Inr ([sqrt 12], [sqrt 12 * 2])
   \<and> sqrt 12 * (sqrt 12 * 2) = 24"
  by (simp add: aspect_grid_def xrange_def np_zeros_def tuple_getitem_def math_sqrt_def
      ndarray_getitem_def ndarray_setitem_def float32_times_def arith_defs upt_rec)

section \<open>The configuration object\<close>

text \<open>
  What the functions of the module act on: the module-level edict \<^verbatim>\<open>__C\<close> (exported as
  \<^verbatim>\<open>cfg\<close>) and the lines printed so far. Reading an option is attribute access on an
  edict, which raises \<^verbatim>\<open>AttributeError\<close> for a name it does not hold, as it does on
  a value that is no edict.
\<close>

record globals =
  cfg :: pyval
  stdout :: "stdout_line list"

fun getattr :: "pyval \<Rightarrow> string \<Rightarrow> error + pyval" where
  "getattr (VEdict kvs) k = (case map_of kvs k of None \<Rightarrow> Inl AttributeError | Some v \<Rightarrow> Inr v)"
| "getattr _ k = Inl AttributeError"

section \<open>Paths\<close>

text \<open>
  \<^verbatim>\<open>os.path\<close> on a POSIX system, after \<^verbatim>\<open>posixpath.py\<close> of CPython 2.7:
  \<^verbatim>\<open>join\<close> restarts at a component that begins with a slash and puts one slash between
  the others, \<^verbatim>\<open>normpath\<close> drops empty and \<^verbatim>\<open>.\<close> components and resolves
  \<^verbatim>\<open>..\<close> against the component before it, and \<^verbatim>\<open>abspath\<close> normalises the path,
  after putting the working directory of the process (\<^verbatim>\<open>os.getcwd()\<close>, the argument
  \<open>cwd\<close>) in front of a relative one.
\<close>

definition startswith :: "string \<Rightarrow> string \<Rightarrow> bool" where
  "startswith s p = (take (length p) s = p)"

definition endswith :: "string \<Rightarrow> string \<Rightarrow> bool" where
  "endswith s p = (length p \<le> length s \<and> drop (length s - length p) s = p)"

definition join_step :: "string \<Rightarrow> string \<Rightarrow> string" where
  "join_step path b =
     (if startswith b ''/'' then b
      else if path = '''' \<or> endswith path ''/'' then path @ b
      else path @ ''/'' @ b)"

definition join :: "string \<Rightarrow> string list \<Rightarrow> string" where
  "join a p = foldl join_step a p"

fun split_slash :: "string \<Rightarrow> string list" where
  "split_slash [] = [[]]"
| "split_slash (c # cs) =
     (if c = CHR ''/'' then [] # split_slash cs
      else (case split_slash cs of [] \<Rightarrow> [[c]] | x # xs \<Rightarrow> (c # x) # xs))"

fun join_slash :: "string list \<Rightarrow> string" where
  "join_slash [] = []"
| "join_slash [x] = x"
| "join_slash (x # y # ys) = x @ ''/'' @ join_slash (y # ys)"

fun new_comps :: "nat \<Rightarrow> string list \<Rightarrow> string list \<Rightarrow> string list" where
  "new_comps initial_slashes [] new = new"
| "new_comps initial_slashes (component # comps) new =
     (if component = '''' \<or> component = ''.'' then new_comps initial_slashes comps new
      else if component \<noteq> ''..'' \<or> (initial_slashes = 0 \<and> new = [])
              \<or> (new \<noteq> [] \<and> last new = ''..'')
        then new_comps initial_slashes comps (new @ [component])
      else if new \<noteq> [] then new_comps initial_slashes comps (butlast new)
      else new_comps initial_slashes comps new)"

definition normpath :: "string \<Rightarrow> string" where
  "normpath path =
     (if path = '''' then ''.''
      else
        let initial_slashes =
              (if startswith path ''/''
               then (if startswith path ''//'' \<and> \<not> startswith path ''///'' then 2 else 1)
               else 0);
            comps = new_comps initial_slashes (split_slash path) [];
            p = replicate initial_slashes CHR ''/'' @ join_slash comps
        in if p = '''' then ''.'' else p)"

definition isabs :: "string \<Rightarrow> bool" where
  "isabs s = startswith s ''/''"

definition abspath :: "string \<Rightarrow> string \<Rightarrow> string" where
  "abspath cwd path = normpath (if isabs path then path else join cwd [path])"



section \<open>The output directory\<close>

text \<open>
  \<^verbatim>\<open>get_output_dir(imdb, net)\<close>. An object is the attributes it has;
  \<^verbatim>\<open>net\<close> is an object or \<^verbatim>\<open>None\<close>. \<^verbatim>\<open>os.path.join\<close> calls
  \<^verbatim>\<open>startswith\<close> on each component after the first and \<^verbatim>\<open>endswith\<close> on the path
  built so far, which a value that is no string does not have. The function returns its
  result together with the configuration object and printed lines as it leaves them.
\<close>

datatype py_object = Object "(string \<times> pyval) list"

fun attribute :: "py_object \<Rightarrow> string \<Rightarrow> error + pyval" where
  "attribute (Object attrs) k =
     (case map_of attrs k of None \<Rightarrow> Inl AttributeError | Some v \<Rightarrow> Inr v)"

fun str_method :: "pyval \<Rightarrow> error + string" where
  "str_method (VStr s) = Inr s"
| "str_method (VUnicode _) = Inl Outside_model"
| "str_method _ = Inl AttributeError"

fun os_path_join :: "pyval \<Rightarrow> pyval list \<Rightarrow> error + pyval" where
  "os_path_join path [] = Inr path"
| "os_path_join path (b # p) =
     (case str_method b of
        Inl e \<Rightarrow> Inl e
      | Inr b' \<Rightarrow>
          if startswith b' ''/'' then os_path_join (VStr b') p
          else (case str_method path of
                  Inl e \<Rightarrow> Inl e
                | Inr path' \<Rightarrow>
                    if path' = [] \<or> endswith path' ''/''
                    then os_path_join (VStr (path' @ b')) p
                    else os_path_join (VStr (path' @ ''/'' @ b')) p))"

definition os_path_abspath :: "string \<Rightarrow> pyval \<Rightarrow> error + pyval" where
  "os_path_abspath cwd path =
     (case str_method path of Inl e \<Rightarrow> Inl e | Inr s \<Rightarrow> Inr (VStr (abspath cwd s)))"

definition get_output_dir ::
  "string \<Rightarrow> py_object \<Rightarrow> py_object option \<Rightarrow> globals \<Rightarrow> (error + pyval) \<times> globals" where
  "get_output_dir cwd imdb net w =
     ((case getattr (cfg w) ''ROOT_DIR'' of
         Inl e \<Rightarrow> Inl e
       | Inr root_dir \<Rightarrow>
      (case getattr (cfg w) ''EXP_DIR'' of
         Inl e \<Rightarrow> Inl e
       | Inr exp_dir \<Rightarrow>
      (case attribute imdb ''name'' of
         Inl e \<Rightarrow> Inl e
       | Inr imdb_name \<Rightarrow>
      (case os_path_join root_dir [VStr ''output'', exp_dir, imdb_name] of
         Inl e \<Rightarrow> Inl e
       | Inr joined \<Rightarrow>
      (case os_path_abspath cwd joined of
         Inl e \<Rightarrow> Inl e
       | Inr path \<Rightarrow>
      (case net of
         None \<Rightarrow> Inr path
       | Some n \<Rightarrow>
           (case attribute n ''name'' of
              Inl e \<Rightarrow> Inl e
            | Inr net_name \<Rightarrow> os_path_join path [net_name]))))))),
      w)"

lemma os_path_join_strings:
  "os_path_join (VStr a) (map VStr p) = Inr (VStr (join a p))"
  by (induction p arbitrary: a) (simp_all add: join_def join_step_def)

section \<open>Claims about the output directory\<close>

text \<open>
  Claim C10, as amended. \<^verbatim>\<open>get_output_dir(imdb, net)\<close> never modifies the configuration
  object. With strings for \<^verbatim>\<open>ROOT_DIR\<close>, \<^verbatim>\<open>EXP_DIR\<close> and \<^verbatim>\<open>imdb.name\<close> it
  returns \<^verbatim>\<open>os.path.abspath\<close> of the path formed by joining \<^verbatim>\<open>ROOT_DIR\<close>,
  \<^verbatim>\<open>'output'\<close>, \<^verbatim>\<open>EXP_DIR\<close> and \<^verbatim>\<open>imdb.name\<close> when \<^verbatim>\<open>net\<close> is
  \<^verbatim>\<open>None\<close>, and that absolute path further joined with the string \<^verbatim>\<open>net.name\<close>
  when it is not.
\<close>

theorem output_dir_is_abspath_of_join:
  "snd (get_output_dir cwd imdb net w) = w \<and>
   (getattr (cfg w) ''ROOT_DIR'' = Inr (VStr root_dir) \<and>
    getattr (cfg w) ''EXP_DIR'' = Inr (VStr exp_dir) \<and>
    attribute imdb ''name'' = Inr (VStr imdb_name) \<longrightarrow>
    fst (get_output_dir cwd imdb None w)
      = Inr (VStr (abspath cwd (join root_dir [''output'', exp_dir, imdb_name]))) \<and>
    (attribute n ''name'' = Inr (VStr net_name) \<longrightarrow>
     fst (get_output_dir cwd imdb (Some n) w)
       = Inr (VStr (join (abspath cwd (join root_dir [''output'', exp_dir, imdb_name]))
                         [net_name]))))"
proof -
  have j: "os_path_join (VStr root_dir) [VStr ''output'', VStr exp_dir, VStr imdb_name]
           = Inr (VStr (join root_dir [''output'', exp_dir, imdb_name]))"
    using os_path_join_strings [of root_dir "[''output'', exp_dir, imdb_name]"] by simp
  have k: "os_path_join (VStr p) [VStr net_name] = Inr (VStr (join p [net_name]))" for p
    using os_path_join_strings [of p "[net_name]"] by simp
  show ?thesis
    by (simp add: get_output_dir_def j k os_path_abspath_def del: os_path_join.simps)
qed

theorem output_dir_is_abspath_of_join_witness:
  "snd (get_output_dir ''/home/u'' (Object [(''name'', VStr ''voc'')])
          (Some (Object [(''name'', VStr ''vgg'')]))
          \<lparr>cfg = VEdict [(''ROOT_DIR'', VStr ''/r''), (''EXP_DIR'', VStr ''kitti'')], stdout = []\<rparr>)
   = \<lparr>cfg = VEdict [(''ROOT_DIR'', VStr ''/r''), (''EXP_DIR'', VStr ''kitti'')], stdout = []\<rparr> \<and>
   fst (get_output_dir ''/home/u'' (Object [(''name'', VStr ''voc'')]) None
          \<lparr>cfg = VEdict [(''ROOT_DIR'', VStr ''/r''), (''EXP_DIR'', VStr ''kitti'')], stdout = []\<rparr>)
   = Inr (VStr ''/r/output/kitti/voc'') \<and>
   fst (get_output_dir ''/home/u'' (Object [(''name'', VStr ''voc'')])
          (Some (Object [(''name'', VStr ''vgg'')]))
          \<lparr>cfg = VEdict [(''ROOT_DIR'', VStr ''/r''), (''EXP_DIR'', VStr ''kitti'')], stdout = []\<rparr>)
   = Inr (VStr ''/r/output/kitti/voc/vgg'')"
  using output_dir_is_abspath_of_join
    [of "''/home/u''" "Object [(''name'', VStr ''voc'')]" "Some (Object [(''name'', VStr ''vgg'')])"
        "\<lparr>cfg = VEdict [(''ROOT_DIR'', VStr ''/r''), (''EXP_DIR'', VStr ''kitti'')], stdout = []\<rparr>"
        "''/r''" "''kitti''" "''voc''" "Object [(''name'', VStr ''vgg'')]" "''vgg''"]
  by (simp add: abspath_def normpath_def isabs_def startswith_def endswith_def join_def join_step_def)

text \<open>
  The claim as stated fails: with \<^verbatim>\<open>EXP_DIR = '.'\<close> the joined path is
  \<^verbatim>\<open>/r/output/./voc\<close>, and the function returns its normal form
  \<^verbatim>\<open>/r/output/voc\<close>.
\<close>

theorem output_dir_not_plain_join_counterexample:
  "fst (get_output_dir ''/home/u'' (Object [(''name'', VStr ''voc'')]) None
          \<lparr>cfg = VEdict [(''ROOT_DIR'', VStr ''/r''), (''EXP_DIR'', VStr ''.'')], stdout = []\<rparr>)
   = Inr (VStr ''/r/output/voc'') \<and>
   join ''/r'' [''output'', ''.'', ''voc''] = ''/r/output/./voc'' \<and>
   fst (get_output_dir ''/home/u'' (Object [(''name'', VStr ''voc'')]) None
          \<lparr>cfg = VEdict [(''ROOT_DIR'', VStr ''/r''), (''EXP_DIR'', VStr ''.'')], stdout = []\<rparr>)
   \<noteq> Inr (VStr (join ''/r'' [''output'', ''.'', ''voc'']))"
  by (simp add: get_output_dir_def os_path_abspath_def abspath_def normpath_def isabs_def
      startswith_def endswith_def join_def join_step_def)

section \<open>Derived values\<close>



definition cfg_option :: "pyval \<Rightarrow> string \<Rightarrow> string \<Rightarrow> error + pyval" where
  "cfg_option c sec k = (case getattr c sec of Inl e \<Rightarrow> Inl e | Inr s \<Rightarrow> getattr s k)"


fun sequence_items :: "pyval \<Rightarrow> error + pyval list" where
  "sequence_items (VTuple xs) = Inr xs"
| "sequence_items (VList xs) = Inr xs"
| "sequence_items (VStr _) = Inl Outside_model"
| "sequence_items (VUnicode _) = Inl Outside_model"
| "sequence_items (VNdarray _) = Inl Outside_model"
| "sequence_items (VEdict _) = Inl Outside_model"
| "sequence_items _ = Inl TypeError"





definition derive_grid :: "pyval \<Rightarrow> string \<Rightarrow> error + real list \<times> real list" where
  "derive_grid c sec =
     (case cfg_option c sec ''KERNEL_SIZE'' of
        Inl e \<Rightarrow> Inl e
      | Inr k \<Rightarrow>
     (case py_mul k k of
        Inl e \<Rightarrow> Inl e
      | Inr area \<Rightarrow>
     (case cfg_option c sec ''ASPECTS'' of
        Inl e \<Rightarrow> Inl e
      | Inr aspect \<Rightarrow>
     (case sequence_items aspect of
        Inl e \<Rightarrow> Inl e
      | Inr items \<Rightarrow>
          aspect_loop area items (xrange (int (length items)))
            (np_zeros (length items), np_zeros (length items))))))"


section \<open>Loading a configuration file\<close>


text \<open>On a section that holds its options, the last computation is \<open>aspect_grid\<close>.\<close>

lemma derive_grid_aspect_grid:
  assumes "cfg_option c sec ''KERNEL_SIZE'' = Inr k"
    and "cfg_option c sec ''ASPECTS'' = Inr aspect"
    and "sequence_items aspect = Inr items"
  shows "derive_grid c sec = aspect_grid k items"
  by (simp add: derive_grid_def aspect_grid_def assms split: sum.splits)









section \<open>Claims about loading\<close>



end
